theory Spec2Isabelle
  imports Main "HOL-Library.Sublist"
begin

section \<open>Regular expressions as \<open>re.match\<close> runs them\<close>

text \<open>
  The program uses four patterns, all built from literal characters, the class \<open>\d\<close>,
  bracket classes such as \<open>[67]\<close>, the repetition \<open>+\<close> applied to a class, the anchors
  \<open>^\<close> and \<open>$\<close>, and capture groups. A pattern is the list of its items; a parenthesis
  is a \<open>Mark\<close>, which consumes nothing and records the position it is met at.

  The strings are Python 2 byte strings and no flag is given, so \<open>\d\<close> is \<open>[0-9]\<close>,
  \<open>^\<close> holds at position 0 only, and \<open>$\<close> holds at the end of the string and also
  just before a newline that is the last character of the string.
\<close>

datatype cclass = Chr char | Digit | OneOf string

datatype item = One cclass | Many1 cclass | Bol | Eol | Mark

type_synonym regex = "item list"

text \<open>Position reached, text still to read, positions recorded by the parentheses.\<close>

type_synonym mstate = "nat \<times> string \<times> nat list"

fun in_class :: "cclass \<Rightarrow> char \<Rightarrow> bool" where
  "in_class (Chr c) x = (x = c)"
| "in_class Digit x = (x \<in> set ''0123456789'')"
| "in_class (OneOf cs) x = (x \<in> set cs)"

text \<open>
  \<open>run r st\<close> lists the states in which the backtracking matcher can finish \<open>r\<close> from
  \<open>st\<close>, in the order in which it tries them: a greedy \<open>+\<close> takes the longest run
  first and gives characters back one at a time.
\<close>

fun run :: "regex \<Rightarrow> mstate \<Rightarrow> mstate list" where
  "run [] st = [st]"
| "run (One c # r) (i, s, m) =
     (case s of [] \<Rightarrow> [] | x # xs \<Rightarrow> if in_class c x then run r (Suc i, xs, m) else [])"
| "run (Many1 c # r) (i, s, m) =
     concat (map (\<lambda>k. run r (i + k, drop k s, m))
                 (rev [1 ..< Suc (length (takeWhile (in_class c) s))]))"
| "run (Bol # r) (i, s, m) = (if i = 0 then run r (i, s, m) else [])"
| "run (Eol # r) (i, s, m) = (if s = [] \<or> s = [CHR 0x0A] then run r (i, s, m) else [])"
| "run (Mark # r) (i, s, m) = run r (i, s, m @ [i])"

text \<open>
  \<open>re.match(regex, s)\<close>: the match starts at position 0; the result is \<open>None\<close> or the
  first way of finishing the pattern.
\<close>

definition re_match :: "regex \<Rightarrow> string \<Rightarrow> mstate option" where
  "re_match r s = (case run r (0, s, []) of [] \<Rightarrow> None | st # _ \<Rightarrow> Some st)"

text \<open>\<open>match.group(1)\<close>: the text between the first two recorded positions.\<close>

definition group1 :: "string \<Rightarrow> mstate \<Rightarrow> string" where
  "group1 s st = (case snd (snd st) of a # b # _ \<Rightarrow> take (b - a) (drop a s) | _ \<Rightarrow> [])"

section \<open>Version Identity\<close>

text \<open>The pattern \<^verbatim>\<open>^(\d+)\.(\d+)\.(\d+)$\<close> of \<open>valid_version_string\<close>.\<close>

definition version_regex :: regex where
  "version_regex =
     [Bol, Mark, Many1 Digit, Mark, One (Chr CHR ''.''),
           Mark, Many1 Digit, Mark, One (Chr CHR ''.''),
           Mark, Many1 Digit, Mark, Eol]"

definition valid_version_string :: "string \<Rightarrow> bool" where
  "valid_version_string ver =
     (let match = re_match version_regex ver
      in if match = None then False else True)"

text \<open>\<open>s.split(c)\<close>: the pieces of \<open>s\<close> between the occurrences of \<open>c\<close>.\<close>

fun split_on :: "char \<Rightarrow> string \<Rightarrow> string list" where
  "split_on c [] = [[]]"
| "split_on c (x # xs) =
     (if x = c then [] # split_on c xs
      else (case split_on c xs of [] \<Rightarrow> [[x]] | w # ws \<Rightarrow> (x # w) # ws))"

text \<open>
  The spec's wording of Version Identity, for comparison: exactly three groups of
  decimal digits, none of them empty, separated by dots, with nothing before or after.
\<close>

definition digits :: "string \<Rightarrow> bool" where
  "digits s = (s \<noteq> [] \<and> list_all (in_class Digit) s)"

definition three_digit_groups :: "string \<Rightarrow> bool" where
  "three_digit_groups s =
     (case split_on CHR ''.'' s of [a, b, c] \<Rightarrow> digits a \<and> digits b \<and> digits c | _ \<Rightarrow> False)"

section \<open>The operating system\<close>

text \<open>
  The file system is a table from locations to entries, in the order in which a
  directory enumeration yields them. A location is the list of names that leads to an
  entry from the root directory; the root itself is the empty list and is always a
  directory. An entry is reached only through directories: \<open>node_at\<close> walks the names
  and stops with nothing as soon as the place it stands at is not a directory.

  What the model leaves out: permissions and full disks (no call fails for them); hard
  links; symbolic links in the middle of a path (a symbolic link is followed only when it
  is the last name of a path); a \<open>..\<close> is taken off together with the name before it,
  and a trailing slash is ignored.
\<close>

datatype node = File | Dir | Symlink string

type_synonym path = "string list"

type_synonym fs = "(path \<times> node) list"

datatype errno = EEXIST | ENOENT | ENOTDIR | EISDIR | EBUSY

datatype exn =
    OSError errno
  | RmtreeSymlink
  | AttributeError
  | NoSuchVersionError string
  | MissingToolError string
  | SystemExit int

text \<open>
  \<open>RmtreeSymlink\<close> is the \<open>OSError\<close> without an error number that \<open>shutil.rmtree\<close>
  raises when it is called on a symbolic link.

  Every call to the operating system is recorded, with its arguments as given, whether
  it succeeds or not.
\<close>

datatype event =
    Popen "string list"
  | Path_isdir string
  | Path_exists string
  | Path_lexists string
  | Listdir string
  | Unlink string
  | Symlink_to string string
  | Rmtree string
  | Makedirs string

text \<open>
  \<open>programs\<close> tells what running an argument vector gives: nothing when the executable
  cannot be started, or the text it writes to its standard output and to its standard
  error.
\<close>

record world =
  files :: fs
  cwd :: path
  environ :: "string \<Rightarrow> string option"
  euid :: nat
  programs :: "string list \<Rightarrow> (string \<times> string) option"
  stdout :: string
  stderr :: string
  trace :: "event list"

subsection \<open>Paths\<close>

text \<open>\<open>os.path.join(a, b)\<close> of \<open>posixpath\<close>, for two arguments.\<close>

definition os_path_join :: "string \<Rightarrow> string \<Rightarrow> string" where
  "os_path_join a b =
     (if take 1 b = ''/'' then b
      else if a = [] \<or> last a = CHR ''/'' then a @ b
      else a @ ''/'' @ b)"

definition norm_step :: "path \<Rightarrow> string \<Rightarrow> path" where
  "norm_step p c =
     (if c = [] \<or> c = ''.'' then p else if c = ''..'' then butlast p else p @ [c])"

text \<open>
  The location a path string names, seen from the directory \<open>base\<close>. The string is read
  the way \<open>os.path.normpath\<close> reads it: an empty component and \<open>.\<close> are dropped, and \<open>..\<close>
  cancels the name before it, whether or not that name exists. The operating system
  resolves \<open>.\<close> and \<open>..\<close> against the directories that are there, so the two readings
  agree on the path strings that have no \<open>.\<close> and no \<open>..\<close> among their components; those
  are the strings the program builds from a prefix and a version, and the statements
  below about an arbitrary path string are made for such strings only.
\<close>

definition names :: "path \<Rightarrow> string \<Rightarrow> path" where
  "names base s =
     foldl norm_step (if take 1 s = ''/'' then [] else base) (split_on CHR ''/'' s)"

subsection \<open>Looking entries up\<close>

fun walk :: "fs \<Rightarrow> path \<Rightarrow> string list \<Rightarrow> node option" where
  "walk t p [] = (if p = [] then Some Dir else map_of t p)"
| "walk t p (c # cs) =
     (if p = [] \<or> map_of t p = Some Dir then walk t (p @ [c]) cs else None)"

definition node_at :: "fs \<Rightarrow> path \<Rightarrow> node option" where
  "node_at t p = walk t [] p"

text \<open>
  \<open>follow\<close> resolves a symbolic link met as the last name, through at most \<open>k\<close> further
  links; the target of a link is read from the directory that holds the link.
\<close>

fun follow :: "fs \<Rightarrow> nat \<Rightarrow> path \<Rightarrow> (path \<times> node) option" where
  "follow t 0 p =
     (case node_at t p of
        None \<Rightarrow> None
      | Some (Symlink target) \<Rightarrow> None
      | Some n \<Rightarrow> Some (p, n))"
| "follow t (Suc k) p =
     (case node_at t p of
        None \<Rightarrow> None
      | Some (Symlink target) \<Rightarrow>
          (if target = [] then None else follow t k (names (butlast p) target))
      | Some n \<Rightarrow> Some (p, n))"

definition stat :: "world \<Rightarrow> string \<Rightarrow> (path \<times> node) option" where
  "stat w s = (if s = [] then None else follow (files w) 40 (names (cwd w) s))"

definition lstat :: "world \<Rightarrow> string \<Rightarrow> node option" where
  "lstat w s = (if s = [] then None else node_at (files w) (names (cwd w) s))"

definition isdir :: "world \<Rightarrow> string \<Rightarrow> bool" where
  "isdir w s = (case stat w s of Some (q, Dir) \<Rightarrow> True | _ \<Rightarrow> False)"

definition children :: "fs \<Rightarrow> path \<Rightarrow> string list" where
  "children t p =
     remdups (map (\<lambda>e. last (fst e)) (filter (\<lambda>e. fst e \<noteq> [] \<and> butlast (fst e) = p) t))"

definition listing :: "world \<Rightarrow> string \<Rightarrow> errno + string list" where
  "listing w s =
     (case stat w s of
        None \<Rightarrow> Inl ENOENT
      | Some (q, Dir) \<Rightarrow> Inr (children (files w) q)
      | Some (q, n) \<Rightarrow> Inl ENOTDIR)"

subsection \<open>Changing the table\<close>

text \<open>
  \<open>del p\<close> takes the entry at \<open>p\<close> away with all that lies below it; \<open>put p n\<close> enters
  \<open>n\<close> at \<open>p\<close>, last in the enumeration order, with nothing below it.
\<close>

definition del :: "path \<Rightarrow> fs \<Rightarrow> fs" where
  "del p t = filter (\<lambda>e. \<not> prefix p (fst e)) t"

definition put :: "path \<Rightarrow> node \<Rightarrow> fs \<Rightarrow> fs" where
  "put p n t = del p t @ [(p, n)]"

definition mkdir_at :: "fs \<Rightarrow> path \<Rightarrow> (errno + unit) \<times> fs" where
  "mkdir_at t p =
     (if node_at t p \<noteq> None then (Inl EEXIST, t)
      else (case node_at t (butlast p) of
              None \<Rightarrow> (Inl ENOENT, t)
            | Some Dir \<Rightarrow> (Inr (), put p Dir t)
            | Some n \<Rightarrow> (Inl ENOTDIR, t)))"

text \<open>
  \<open>os.makedirs\<close>: when the parent does not exist it is made first, by the same
  procedure, and of the errors of that attempt only \<open>EEXIST\<close> is let pass; then the
  directory itself is made.
\<close>

function makedirs_at :: "fs \<Rightarrow> path \<Rightarrow> (errno + unit) \<times> fs" where
  "makedirs_at t p =
     (if p \<noteq> [] \<and> butlast p \<noteq> [] \<and> follow t 40 (butlast p) = None
      then (case makedirs_at t (butlast p) of
              (Inl e, t') \<Rightarrow> if e = EEXIST then mkdir_at t' p else (Inl e, t')
            | (Inr u, t') \<Rightarrow> mkdir_at t' p)
      else mkdir_at t p)"
  by pat_completeness auto
termination
  by (relation "measure (\<lambda>(t, p). length p)") auto

section \<open>Computations\<close>

text \<open>
  A function of the program takes the world and gives back a value or the exception it
  raised, with the world as it has left it.
\<close>

type_synonym 'a run = "world \<Rightarrow> (exn + 'a) \<times> world"

definition ret :: "'a \<Rightarrow> 'a run" where
  "ret x w = (Inr x, w)"

definition raise :: "exn \<Rightarrow> 'a run" where
  "raise e w = (Inl e, w)"

definition and_then :: "'a run \<Rightarrow> ('a \<Rightarrow> 'b run) \<Rightarrow> 'b run" where
  "and_then m f w = (case m w of (Inl e, w') \<Rightarrow> (Inl e, w') | (Inr x, w') \<Rightarrow> f x w')"

definition logged :: "event \<Rightarrow> world \<Rightarrow> world" where
  "logged e w = w\<lparr>trace := trace w @ [e]\<rparr>"

subsection \<open>The calls the program makes\<close>

definition os_path_isdir :: "string \<Rightarrow> bool run" where
  "os_path_isdir s w = (Inr (isdir w s), logged (Path_isdir s) w)"

definition os_path_exists :: "string \<Rightarrow> bool run" where
  "os_path_exists s w = (Inr (stat w s \<noteq> None), logged (Path_exists s) w)"

definition os_path_lexists :: "string \<Rightarrow> bool run" where
  "os_path_lexists s w = (Inr (lstat w s \<noteq> None), logged (Path_lexists s) w)"

definition os_listdir :: "string \<Rightarrow> string list run" where
  "os_listdir s w =
     (case listing w s of
        Inl e \<Rightarrow> (Inl (OSError e), logged (Listdir s) w)
      | Inr ns \<Rightarrow> (Inr ns, logged (Listdir s) w))"

definition os_unlink :: "string \<Rightarrow> unit run" where
  "os_unlink s w =
     (case lstat w s of
        None \<Rightarrow> (Inl (OSError ENOENT), logged (Unlink s) w)
      | Some Dir \<Rightarrow> (Inl (OSError EISDIR), logged (Unlink s) w)
      | Some n \<Rightarrow> (Inr (), logged (Unlink s) (w\<lparr>files := del (names (cwd w) s) (files w)\<rparr>)))"

definition os_symlink :: "string \<Rightarrow> string \<Rightarrow> unit run" where
  "os_symlink target s w =
     (if s = [] then (Inl (OSError ENOENT), logged (Symlink_to target s) w)
      else if lstat w s \<noteq> None then (Inl (OSError EEXIST), logged (Symlink_to target s) w)
      else (case node_at (files w) (butlast (names (cwd w) s)) of
              None \<Rightarrow> (Inl (OSError ENOENT), logged (Symlink_to target s) w)
            | Some Dir \<Rightarrow>
                (Inr (), logged (Symlink_to target s)
                   (w\<lparr>files := put (names (cwd w) s) (Symlink target) (files w)\<rparr>))
            | Some n \<Rightarrow> (Inl (OSError ENOTDIR), logged (Symlink_to target s) w)))"

text \<open>
  \<open>shutil.rmtree\<close> refuses a symbolic link, fails where it cannot list a directory, and
  cannot take the root away after it has emptied it.
\<close>

definition shutil_rmtree :: "string \<Rightarrow> unit run" where
  "shutil_rmtree s w =
     (case lstat w s of
        None \<Rightarrow> (Inl (OSError ENOENT), logged (Rmtree s) w)
      | Some (Symlink target) \<Rightarrow> (Inl RmtreeSymlink, logged (Rmtree s) w)
      | Some File \<Rightarrow> (Inl (OSError ENOTDIR), logged (Rmtree s) w)
      | Some Dir \<Rightarrow>
          (if names (cwd w) s = []
           then (Inl (OSError EBUSY), logged (Rmtree s) (w\<lparr>files := []\<rparr>))
           else (Inr (), logged (Rmtree s) (w\<lparr>files := del (names (cwd w) s) (files w)\<rparr>))))"

definition os_makedirs :: "string \<Rightarrow> unit run" where
  "os_makedirs s w =
     (if s = [] then (Inl (OSError ENOENT), logged (Makedirs s) w)
      else (case makedirs_at (files w) (names (cwd w) s) of
              (Inl e, t) \<Rightarrow> (Inl (OSError e), logged (Makedirs s) (w\<lparr>files := t\<rparr>))
            | (Inr u, t) \<Rightarrow> (Inr (), logged (Makedirs s) (w\<lparr>files := t\<rparr>))))"

text \<open>
  \<open>subprocess.Popen(argv, ...)\<close> followed by reading the pipes to their end: the text on
  standard output and on standard error, or \<open>OSError\<close> when the executable is not found.
\<close>

definition popen_read :: "string list \<Rightarrow> (string \<times> string) run" where
  "popen_read argv w =
     (case programs w argv of
        None \<Rightarrow> (Inl (OSError ENOENT), logged (Popen argv) w)
      | Some texts \<Rightarrow> (Inr texts, logged (Popen argv) w))"

definition sys_stdout_write :: "string \<Rightarrow> unit run" where
  "sys_stdout_write s w = (Inr (), w\<lparr>stdout := stdout w @ s\<rparr>)"

definition sys_stderr_write :: "string \<Rightarrow> unit run" where
  "sys_stderr_write s w = (Inr (), w\<lparr>stderr := stderr w @ s\<rparr>)"

definition sys_exit :: "int \<Rightarrow> 'a run" where
  "sys_exit code = raise (SystemExit code)"

section \<open>The module \<open>shared\<close>\<close>

text \<open>
  \<open>os.path.join(None, ...)\<close> raises \<open>AttributeError\<close>: that is what happens when neither
  \<open>NODEVERS_PREFIX\<close> nor \<open>HOME\<close> is set and the user is not root.
\<close>

definition get_nodevers_prefix :: "string run" where
  "get_nodevers_prefix w =
     (case environ w ''NODEVERS_PREFIX'' of
        Some nodevers_prefix \<Rightarrow> (Inr nodevers_prefix, w)
      | None \<Rightarrow>
          (if euid w = 0 then (Inr ''/opt/nodevers'', w)
           else (case environ w ''HOME'' of
                   None \<Rightarrow> (Inl AttributeError, w)
                 | Some home_path \<Rightarrow> (Inr (os_path_join home_path ''.nodevers''), w))))"

definition layout_dirs :: "string list" where
  "layout_dirs = [''versions'', ''tmp'', ''patches'', os_path_join ''patches'' ''global'']"

fun all_isdir :: "string \<Rightarrow> string list \<Rightarrow> bool run" where
  "all_isdir path [] = ret True"
| "all_isdir path (i # dirs) =
     and_then (os_path_isdir (os_path_join path i))
       (\<lambda>d. if \<not> d then ret False else all_isdir path dirs)"

definition valid_nodevers_prefix :: "string \<Rightarrow> bool run" where
  "valid_nodevers_prefix path = all_isdir path layout_dirs"

fun makedirs_all :: "string \<Rightarrow> string list \<Rightarrow> unit run" where
  "makedirs_all path [] = ret ()"
| "makedirs_all path (i # dirs) =
     and_then (os_makedirs (os_path_join path i)) (\<lambda>u. makedirs_all path dirs)"

definition mknodevers_prefix :: "string \<Rightarrow> unit run" where
  "mknodevers_prefix path =
     and_then (os_path_exists path)
       (\<lambda>there. and_then (if there then shutil_rmtree path else ret ())
          (\<lambda>u. makedirs_all path layout_dirs))"

definition get_versions_dir :: "string run" where
  "get_versions_dir = and_then get_nodevers_prefix (\<lambda>p. ret (os_path_join p ''versions''))"

definition get_bin_dir :: "string run" where
  "get_bin_dir = and_then get_nodevers_prefix (\<lambda>p. ret (os_path_join p ''bin''))"

definition get_patches_dir :: "string run" where
  "get_patches_dir = and_then get_nodevers_prefix (\<lambda>p. ret (os_path_join p ''patches''))"

definition get_version_dir :: "string \<Rightarrow> string run" where
  "get_version_dir ver = and_then get_versions_dir (\<lambda>d. ret (os_path_join d ver))"

definition version_exists :: "string \<Rightarrow> bool run" where
  "version_exists ver =
     and_then (get_version_dir ver)
       (\<lambda>version_dir. and_then (os_path_isdir version_dir)
          (\<lambda>d. if d then ret True else ret False))"

text \<open>One loop of \<open>get_patches_list\<close>: the entries of \<open>dir\<close> that are not directories.\<close>

fun append_patches :: "string \<Rightarrow> string list \<Rightarrow> string list \<Rightarrow> string list run" where
  "append_patches dir [] patches_list = ret patches_list"
| "append_patches dir (patch # rest) patches_list =
     and_then (os_path_isdir (os_path_join dir patch))
       (\<lambda>d. append_patches dir rest
               (if \<not> d then patches_list @ [os_path_join dir patch] else patches_list))"

definition get_patches_list :: "string \<Rightarrow> string list run" where
  "get_patches_list ver =
     and_then get_patches_dir (\<lambda>pd.
     and_then get_patches_dir (\<lambda>pd'.
     and_then (os_listdir (os_path_join pd ''global'')) (\<lambda>global_names.
     and_then (append_patches (os_path_join pd ''global'') global_names []) (\<lambda>patches_list.
     and_then (os_path_isdir (os_path_join pd' ver)) (\<lambda>d.
       if d then
         and_then (os_listdir (os_path_join pd' ver)) (\<lambda>version_names.
           append_patches (os_path_join pd' ver) version_names patches_list)
       else ret patches_list)))))"

text \<open>
  The spec's wording of what one patch directory contributes, for comparison: its entries
  that are not directories, in enumeration order, each joined to the directory.
\<close>

definition patch_files :: "world \<Rightarrow> string \<Rightarrow> string list" where
  "patch_files w dir =
     (case listing w dir of
        Inl e \<Rightarrow> []
      | Inr entries \<Rightarrow>
          map (os_path_join dir) (filter (\<lambda>n. \<not> isdir w (os_path_join dir n)) entries))"

text \<open>The pattern \<^verbatim>\<open>Python (2\.[67]\.\d+)\<close> of \<open>__try_python\<close>.\<close>

definition python_regex :: regex where
  "python_regex =
     map (\<lambda>c. One (Chr c)) ''Python '' @
     [Mark, One (Chr CHR ''2''), One (Chr CHR ''.''), One (OneOf ''67''),
      One (Chr CHR ''.''), Many1 Digit, Mark]"

text \<open>
  The spec's wording of the banner, for comparison: \<open>Python 2.6.x\<close> or \<open>Python 2.7.x\<close>
  at the start of the text, \<open>x\<close> beginning with a digit.
\<close>

definition python_banner :: "string \<Rightarrow> bool" where
  "python_banner s =
     ((take 11 s = ''Python 2.6.'' \<or> take 11 s = ''Python 2.7.'') \<and>
      (case drop 11 s of [] \<Rightarrow> False | c # cs \<Rightarrow> in_class Digit c))"

text \<open>
  \<open>__try_python\<close>: the interpreter is run with \<open>-V\<close>, its standard error is read and
  matched; an \<open>OSError\<close> gives \<open>False\<close>.
\<close>

definition try_python :: "string \<Rightarrow> bool run" where
  "try_python python_exe w =
     (case popen_read [python_exe, ''-V''] w of
        (Inl (OSError e), w') \<Rightarrow> (Inr False, w')
      | (Inl x, w') \<Rightarrow> (Inl x, w')
      | (Inr (out, ver), w') \<Rightarrow>
          (if re_match python_regex ver = None then (Inr False, w') else (Inr True, w')))"

text \<open>
  The spec's wording of a usable candidate, for comparison: the executable can be run and
  the text it writes to its standard error is such a banner.
\<close>

definition python_usable :: "world \<Rightarrow> string \<Rightarrow> bool" where
  "python_usable w exe =
     (case programs w [exe, ''-V''] of None \<Rightarrow> False | Some (out, err) \<Rightarrow> python_banner err)"

definition python :: "string run" where
  "python =
     and_then (try_python ''python'') (\<lambda>ok.
       if ok then ret ''python''
       else and_then (try_python ''python2'') (\<lambda>ok2.
         if ok2 then ret ''python2''
         else raise (MissingToolError
                ''python is either missing, newer than 2.x or older than 2.6'')))"

definition link_to :: "string \<Rightarrow> unit run" where
  "link_to ver =
     (if ver = ''system'' then
        and_then get_bin_dir (\<lambda>b.
        and_then (os_path_lexists b) (\<lambda>there.
          if there then and_then get_bin_dir os_unlink else ret ()))
      else
        and_then (version_exists ver) (\<lambda>installed.
          if installed then
            and_then get_bin_dir (\<lambda>b.
            and_then (os_path_lexists b) (\<lambda>there.
            and_then (if there then and_then get_bin_dir os_unlink else ret ()) (\<lambda>u.
            and_then (get_version_dir ver) (\<lambda>vd.
            and_then get_bin_dir (\<lambda>b'.
              os_symlink (os_path_join vd ''bin'') b')))))
          else raise (NoSuchVersionError ''there is no such version installed'')))"

text \<open>The pattern \<^verbatim>\<open>v(\d+\.\d+\.\d+)\<close> of \<open>current_version\<close>.\<close>

definition node_regex :: regex where
  "node_regex =
     [One (Chr CHR ''v''), Mark, Many1 Digit, One (Chr CHR ''.''), Many1 Digit,
      One (Chr CHR ''.''), Many1 Digit, Mark]"

text \<open>
  The spec's wording of the runtime's answer, for comparison: \<open>v<major>.<minor>.<patch>\<close>
  at the start of the text; \<open>leading_version\<close> reads the three numbers off.
\<close>

definition leading_version :: "string \<Rightarrow> string option" where
  "leading_version s =
     (case s of
        [] \<Rightarrow> None
      | v # t \<Rightarrow>
          (let a = takeWhile (in_class Digit) t; t1 = dropWhile (in_class Digit) t;
               b = takeWhile (in_class Digit) (drop 1 t1);
               t2 = dropWhile (in_class Digit) (drop 1 t1);
               c = takeWhile (in_class Digit) (drop 1 t2)
           in if v = CHR ''v'' \<and> a \<noteq> [] \<and> take 1 t1 = ''.'' \<and> b \<noteq> [] \<and>
                 take 1 t2 = ''.'' \<and> c \<noteq> []
              then Some (a @ ''.'' @ b @ ''.'' @ c) else None))"

text \<open>\<open>match.group(1)\<close> on \<open>None\<close> raises \<open>AttributeError\<close>.\<close>

definition current_version :: "string run" where
  "current_version =
     and_then (popen_read [''node'', ''-v'']) (\<lambda>(node_output, errs).
       case re_match node_regex node_output of
         None \<Rightarrow> raise AttributeError
       | Some match \<Rightarrow> ret (group1 node_output match))"

text \<open>
  The spec's wording of the currently active version, for comparison: what the runtime,
  run with its version flag, reports at the start of its output.
\<close>

definition active_version :: "world \<Rightarrow> string option" where
  "active_version w =
     (case programs w [''node'', ''-v''] of
        None \<Rightarrow> None
      | Some (node_output, errs) \<Rightarrow> leading_version node_output)"

section \<open>The module \<open>remove\<close>\<close>

text \<open>
  \<open>remove\<close> calls \<open>use.link_to\<close> and \<open>version.current_version\<close>. The modules \<open>use\<close> and
  \<open>version\<close> are not among the sources; the functions of these names that \<open>shared\<close>
  defines are taken for them.
\<close>

definition remove :: "string \<Rightarrow> unit run" where
  "remove ver =
     and_then current_version (\<lambda>cur.
     and_then (if ver = cur then link_to ''system'' else ret ()) (\<lambda>u.
     and_then (get_version_dir ver) shutil_rmtree))"

definition helpstr :: string where
  "helpstr =
     concat (map (\<lambda>l. l @ [CHR 0x0A])
       [''Usage: nodevers remove <version> [options]'',
        [],
        ''  Summary:'',
        ''      Uninstalls the specified Node version'',
        [],
        ''  Options:'',
        ''      -h/--help         Print this text'',
        []])"

definition help_func :: "string \<Rightarrow> 'a run" where
  "help_func help_str = and_then (sys_stdout_write help_str) (\<lambda>u. sys_exit 0)"

text \<open>
  \<open>getopt.getopt(args, "h", ["help"])\<close>: the options read from the front of \<open>args\<close> and
  the arguments left, or the message of the \<open>getopt.error\<close>. Reading stops at the first
  argument that is not an option; a long option may be abbreviated.
\<close>

fun do_shorts :: "string \<Rightarrow> string + (string \<times> string) list" where
  "do_shorts [] = Inr []"
| "do_shorts (opt # optstring) =
     (if opt = CHR ''h'' then
        (case do_shorts optstring of
           Inl msg \<Rightarrow> Inl msg
         | Inr opts \<Rightarrow> Inr ((''-h'', []) # opts))
      else Inl (''option -'' @ [opt] @ '' not recognized''))"

definition do_longs :: "string \<Rightarrow> string + (string \<times> string)" where
  "do_longs opt =
     (let name = takeWhile (\<lambda>c. c \<noteq> CHR ''='') opt in
      if \<not> prefix name ''help'' then Inl (''option --'' @ name @ '' not recognized'')
      else if CHR ''='' \<in> set opt then Inl ''option --help must not have an argument''
      else Inr (''--help'', []))"

fun getopt :: "string list \<Rightarrow> string + ((string \<times> string) list \<times> string list)" where
  "getopt [] = Inr ([], [])"
| "getopt (a # args) =
     (if take 1 a = ''-'' \<and> a \<noteq> ''-'' then
        (if a = ''--'' then Inr ([], args)
         else if take 2 a = ''--'' then
           (case do_longs (drop 2 a) of
              Inl msg \<Rightarrow> Inl msg
            | Inr opt \<Rightarrow>
                (case getopt args of
                   Inl msg \<Rightarrow> Inl msg
                 | Inr (opts, rest) \<Rightarrow> Inr (opt # opts, rest)))
         else
           (case do_shorts (drop 1 a) of
              Inl msg \<Rightarrow> Inl msg
            | Inr new \<Rightarrow>
                (case getopt args of
                   Inl msg \<Rightarrow> Inl msg
                 | Inr (opts, rest) \<Rightarrow> Inr (new @ opts, rest))))
      else Inr ([], a # args))"

fun scan_options :: "(string \<times> string) list \<Rightarrow> unit run" where
  "scan_options [] = ret ()"
| "scan_options ((option, v) # optlist) =
     (if option = ''-h'' \<or> option = ''--help'' then help_func helpstr
      else scan_options optlist)"

definition parse :: "string list \<Rightarrow> unit run" where
  "parse args =
     (if length args = 0 then help_func helpstr
      else
        (case getopt args of
           Inl err \<Rightarrow>
             and_then (sys_stderr_write (''Error: '' @ err @ ''.'' @ [CHR 0x0A]))
               (\<lambda>u. sys_exit (- 1))
         | Inr (optlist, arglist) \<Rightarrow>
             and_then (scan_options optlist) (\<lambda>u.
             and_then (version_exists (hd args)) (\<lambda>installed.
               if installed then remove (hd args)
               else sys_stdout_write (''There is no such version installed.'' @ [CHR 0x0A])))))"

section \<open>A sample world\<close>

text \<open>
  The theorems below are tried on this world: root runs the program, the prefix
  \<open>/opt/nodevers\<close> holds the versions 5.10.2 and 4.0.0, two global patches and one for
  5.10.2, the Active Link points at 5.10.2, \<open>node -v\<close> answers \<open>v5.10.2\<close>, and of the two
  interpreter names only \<open>python2\<close> can be run.
\<close>

definition sample_world :: world where
  "sample_world =
     \<lparr>files =
        [([''opt''], Dir),
         ([''opt'', ''nodevers''], Dir),
         ([''opt'', ''nodevers'', ''versions''], Dir),
         ([''opt'', ''nodevers'', ''versions'', ''5.10.2''], Dir),
         ([''opt'', ''nodevers'', ''versions'', ''5.10.2'', ''bin''], Dir),
         ([''opt'', ''nodevers'', ''versions'', ''4.0.0''], Dir),
         ([''opt'', ''nodevers'', ''versions'', ''4.0.0'', ''bin''], Dir),
         ([''opt'', ''nodevers'', ''tmp''], Dir),
         ([''opt'', ''nodevers'', ''patches''], Dir),
         ([''opt'', ''nodevers'', ''patches'', ''global''], Dir),
         ([''opt'', ''nodevers'', ''patches'', ''global'', ''a''], File),
         ([''opt'', ''nodevers'', ''patches'', ''global'', ''old''], Dir),
         ([''opt'', ''nodevers'', ''patches'', ''global'', ''b''], File),
         ([''opt'', ''nodevers'', ''patches'', ''5.10.2''], Dir),
         ([''opt'', ''nodevers'', ''patches'', ''5.10.2'', ''c''], File),
         ([''opt'', ''nodevers'', ''bin''], Symlink ''/opt/nodevers/versions/5.10.2/bin'')],
      cwd = [],
      environ = (\<lambda>name. None),
      euid = 0,
      programs =
        (\<lambda>argv. if argv = [''node'', ''-v''] then Some (''v5.10.2'' @ [CHR 0x0A], [])
                else if argv = [''python2'', ''-V''] then Some ([], ''Python 2.7.18'' @ [CHR 0x0A])
                else None),
      stdout = [],
      stderr = [],
      trace = []\<rparr>"

text \<open>
  The same machine with nothing installed, where the place of the prefix of the root
  user is taken by a regular file.
\<close>

definition occupied_world :: world where
  "occupied_world =
     sample_world\<lparr>files := [([''opt''], Dir), ([''opt'', ''nodevers''], File)]\<rparr>"

section \<open>Properties\<close>

subsection \<open>What the patterns match\<close>

lemma drop_in_takeWhile:
  assumes "k < length (takeWhile P s)"
  shows "\<exists>x xs. drop k s = x # xs \<and> P x"
proof -
  have kl: "k < length s" using assms length_takeWhile_le [of P s] by (meson less_le_trans)
  have "takeWhile P s ! k \<in> set (takeWhile P s)" using assms by simp
  then have "P (takeWhile P s ! k)" by (rule set_takeWhileD [THEN conjunct2])
  moreover have "takeWhile P s ! k = s ! k" using assms by (rule takeWhile_nth)
  ultimately have "P (s ! k)" by simp
  moreover have "drop k s = s ! k # drop (Suc k) s" using kl by (simp add: Cons_nth_drop_Suc)
  ultimately show ?thesis by blast
qed

lemma run_Many1_full:
  assumes "\<And>k. 1 \<le> k \<Longrightarrow> k < length (takeWhile (in_class c) s) \<Longrightarrow> run r (i + k, drop k s, m) = []"
  shows "run (Many1 c # r) (i, s, m) =
           (if takeWhile (in_class c) s = [] then []
            else run r (i + length (takeWhile (in_class c) s), dropWhile (in_class c) s, m))"
proof (cases "takeWhile (in_class c) s = []")
  case True
  then show ?thesis by simp
next
  case False
  define n where "n = length (takeWhile (in_class c) s)"
  have n: "0 < n" using False by (simp add: n_def)
  have up: "[1 ..< Suc n] = [1 ..< n] @ [n]" using n by simp
  have rest: "concat (map (\<lambda>k. run r (i + k, drop k s, m)) (rev [1 ..< n])) = []"
    using assms by (auto simp: n_def)
  have "run (Many1 c # r) (i, s, m) =
          concat (map (\<lambda>k. run r (i + k, drop k s, m)) (rev [1 ..< Suc n]))"
    by (simp add: n_def)
  also have "\<dots> = run r (i + n, drop n s, m)"
    unfolding up using rest by simp
  finally show ?thesis using False by (simp add: n_def dropWhile_eq_drop)
qed

lemma run_Many1_first:
  assumes "takeWhile (in_class c) s \<noteq> []"
  shows "\<exists>others. run (Many1 c # r) (i, s, m) =
           run r (i + length (takeWhile (in_class c) s), dropWhile (in_class c) s, m) @ others"
proof -
  define n where "n = length (takeWhile (in_class c) s)"
  have n: "0 < n" using assms by (simp add: n_def)
  have up: "[1 ..< Suc n] = [1 ..< n] @ [n]" using n by simp
  have "run (Many1 c # r) (i, s, m) =
          concat (map (\<lambda>k. run r (i + k, drop k s, m)) (rev [1 ..< Suc n]))"
    by (simp add: n_def)
  also have "\<dots> = run r (i + n, drop n s, m) @
       concat (map (\<lambda>k. run r (i + k, drop k s, m)) (rev [1 ..< n]))"
    unfolding up by simp
  finally show ?thesis by (auto simp: n_def dropWhile_eq_drop)
qed

lemma run_Many1_then_Chr:
  assumes "\<not> in_class c d"
  shows "run (Many1 c # One (Chr d) # r) (i, s, m) =
           (if takeWhile (in_class c) s = [] then []
            else run (One (Chr d) # r) (i + length (takeWhile (in_class c) s), dropWhile (in_class c) s, m))"
proof (rule run_Many1_full)
  fix k assume "1 \<le> k" and "k < length (takeWhile (in_class c) s)"
  then obtain x xs where "drop k s = x # xs" "in_class c x"
    using drop_in_takeWhile by blast
  then show "run (One (Chr d) # r) (i + k, drop k s, m) = []"
    using assms by auto
qed

lemma run_Many1_Mark_then_Chr:
  assumes "\<not> in_class c d"
  shows "run (Many1 c # Mark # One (Chr d) # r) (i, s, m) =
           (if takeWhile (in_class c) s = [] then []
            else run (Mark # One (Chr d) # r) (i + length (takeWhile (in_class c) s), dropWhile (in_class c) s, m))"
proof (rule run_Many1_full)
  fix k assume "1 \<le> k" and "k < length (takeWhile (in_class c) s)"
  then obtain x xs where "drop k s = x # xs" "in_class c x"
    using drop_in_takeWhile by blast
  then show "run (Mark # One (Chr d) # r) (i + k, drop k s, m) = []"
    using assms by auto
qed

lemma valid_version_string_starts_with_digit:
  assumes "valid_version_string v"
  shows "\<exists>d rest. v = d # rest \<and> in_class Digit d"
proof -
  have "takeWhile (in_class Digit) v \<noteq> []"
  proof
    assume "takeWhile (in_class Digit) v = []"
    then have "re_match version_regex v = None"
      by (simp add: re_match_def version_regex_def)
    then show False using assms by (simp add: valid_version_string_def)
  qed
  then show ?thesis by (cases v) (auto split: if_splits)
qed


lemma run_literal:
  "run (map (\<lambda>c. One (Chr c)) lit @ r) (i, s, m) =
     (if take (length lit) s = lit then run r (i + length lit, drop (length lit) s, m) else [])"
proof (induction lit arbitrary: i s)
  case Nil
  then show ?case by simp
next
  case (Cons c lit)
  then show ?case by (cases s) auto
qed

lemma run_Many1_Mark_end:
  "(case run [Many1 c, Mark] (i, s, m) of [] \<Rightarrow> None | st # others \<Rightarrow> Some st) =
     (if takeWhile (in_class c) s = [] then None
      else Some (i + length (takeWhile (in_class c) s), dropWhile (in_class c) s,
                 m @ [i + length (takeWhile (in_class c) s)]))"
proof (cases "takeWhile (in_class c) s = []")
  case True
  then show ?thesis by simp
next
  case False
  from run_Many1_first [OF False, of "[Mark]" i m]
  obtain others where "run [Many1 c, Mark] (i, s, m) =
      run [Mark] (i + length (takeWhile (in_class c) s), dropWhile (in_class c) s, m) @ others"
    by blast
  then show ?thesis using False by simp
qed

lemma run_One_nonempty:
  "(run (One c # r) (i, s, m) \<noteq> []) =
     (\<exists>x xs. s = x # xs \<and> in_class c x \<and> run r (Suc i, xs, m) \<noteq> [])"
  by (cases s) auto

lemma run_Many1_Mark_nonempty:
  "(run [Many1 c, Mark] (i, s, m) \<noteq> []) = (takeWhile (in_class c) s \<noteq> [])"
  using run_Many1_Mark_end [of c i s m] by (auto split: list.splits if_splits)

lemma python_regex_banner: "(re_match python_regex s \<noteq> None) = python_banner s"
proof -
  have m: "(re_match python_regex s \<noteq> None) = (run python_regex (0, s, []) \<noteq> [])"
    by (simp add: re_match_def split: list.splits)
  show ?thesis
  proof
    assume "re_match python_regex s \<noteq> None"
    then have "run python_regex (0, s, []) \<noteq> []" using m by simp
    then obtain x t where s: "s = ''Python 2.'' @ x # CHR ''.'' # t"
      and x: "x = CHR ''6'' \<or> x = CHR ''7''" and t: "takeWhile (in_class Digit) t \<noteq> []"
      unfolding python_regex_def
      by (auto simp: run_One_nonempty run_Many1_Mark_nonempty simp del: run.simps(2,3))
    from t obtain d ds where "t = d # ds" "in_class Digit d"
      by (cases t) (auto split: if_splits)
    then show "python_banner s" using s x by (auto simp: python_banner_def)
  next
    assume "python_banner s"
    then obtain d ds where "s = ''Python 2.6.'' @ d # ds \<or> s = ''Python 2.7.'' @ d # ds"
      and d: "in_class Digit d"
      unfolding python_banner_def
      by (metis (no_types, lifting) append_take_drop_id list.case_eq_if list.collapse)
    then have "run python_regex (0, s, []) \<noteq> []"
      unfolding python_regex_def
      by (auto simp: run_One_nonempty run_Many1_Mark_nonempty simp del: run.simps(2,3))
    then show "re_match python_regex s \<noteq> None" using m by simp
  qed
qed


lemma dot_not_digit: "\<not> in_class Digit CHR ''.''"
  by simp

lemma run_One_Chr:
  "run (One (Chr d) # r) (i, s, m) =
     (if take 1 s = [d] then run r (Suc i, drop 1 s, m) else [])"
  by (cases s) auto

lemma node_regex_first:
  "(case run node_regex (0, x # t, []) of [] \<Rightarrow> None | st # others \<Rightarrow> Some st) =
     (let a = takeWhile (in_class Digit) t; t1 = dropWhile (in_class Digit) t;
          b = takeWhile (in_class Digit) (drop 1 t1); t2 = dropWhile (in_class Digit) (drop 1 t1);
          c = takeWhile (in_class Digit) (drop 1 t2); t3 = dropWhile (in_class Digit) (drop 1 t2)
      in if x = CHR ''v'' \<and> a \<noteq> [] \<and> take 1 t1 = ''.'' \<and> b \<noteq> [] \<and> take 1 t2 = ''.'' \<and> c \<noteq> []
         then Some (3 + length a + length b + length c, t3,
                    [1, 3 + length a + length b + length c])
         else None)"
proof -
  define a where "a = takeWhile (in_class Digit) t"
  define t1 where "t1 = dropWhile (in_class Digit) t"
  define b where "b = takeWhile (in_class Digit) (drop 1 t1)"
  define t2 where "t2 = dropWhile (in_class Digit) (drop 1 t1)"
  define c where "c = takeWhile (in_class Digit) (drop 1 t2)"
  define t3 where "t3 = dropWhile (in_class Digit) (drop 1 t2)"
  define tailr where "tailr = [Many1 Digit, Mark]"
  define r2 where "r2 = Many1 Digit # One (Chr CHR ''.'') # tailr"
  define r1 where "r1 = Many1 Digit # One (Chr CHR ''.'') # r2"
  have nr: "node_regex = One (Chr CHR ''v'') # Mark # r1"
    by (simp add: node_regex_def r1_def r2_def tailr_def)
  have s0: "run node_regex (0, x # t, []) = (if x = CHR ''v'' then run r1 (1, t, [1]) else [])"
    unfolding nr by simp
  have s1: "run r1 (1, t, [1]) =
      (if a = [] \<or> take 1 t1 \<noteq> ''.'' then [] else run r2 (2 + length a, drop 1 t1, [1]))"
    unfolding r1_def a_def t1_def
    by (simp add: run_Many1_then_Chr [OF dot_not_digit] run_One_Chr eval_nat_numeral
        del: run.simps(2,3) in_class.simps)
  have s2: "run r2 (2 + length a, drop 1 t1, [1]) =
      (if b = [] \<or> take 1 t2 \<noteq> ''.'' then []
       else run tailr (3 + length a + length b, drop 1 t2, [1]))"
    unfolding r2_def b_def t2_def
    by (simp add: run_Many1_then_Chr [OF dot_not_digit] run_One_Chr eval_nat_numeral
        del: run.simps(2,3) in_class.simps)
  have s3: "(case run tailr (3 + length a + length b, drop 1 t2, [1]) of
               [] \<Rightarrow> None | st # others \<Rightarrow> Some st) =
      (if c = [] then None
       else Some (3 + length a + length b + length c, t3, [1, 3 + length a + length b + length c]))"
    unfolding tailr_def c_def t3_def
    by (simp add: run_Many1_Mark_end eval_nat_numeral del: run.simps(2,3) in_class.simps)
  have full: "run node_regex (0, x # t, []) =
      (if x = CHR ''v'' \<and> a \<noteq> [] \<and> take 1 t1 = ''.'' \<and> b \<noteq> [] \<and> take 1 t2 = ''.''
       then run tailr (3 + length a + length b, drop 1 t2, [1]) else [])"
    unfolding s0 s1 s2 by auto
  show ?thesis
    unfolding Let_def a_def [symmetric] t1_def [symmetric] b_def [symmetric] t2_def [symmetric]
      c_def [symmetric] t3_def [symmetric] full
    using s3 by auto
qed

lemma current_version_parse:
  "map_option (group1 s) (re_match node_regex s) = leading_version s"
proof (cases s)
  case Nil
  then show ?thesis by (simp add: re_match_def node_regex_def leading_version_def)
next
  case (Cons x t)
  define a where "a = takeWhile (in_class Digit) t"
  define t1 where "t1 = dropWhile (in_class Digit) t"
  define b where "b = takeWhile (in_class Digit) (drop 1 t1)"
  define t2 where "t2 = dropWhile (in_class Digit) (drop 1 t1)"
  define c where "c = takeWhile (in_class Digit) (drop 1 t2)"
  define t3 where "t3 = dropWhile (in_class Digit) (drop 1 t2)"
  have first: "re_match node_regex s =
     (if x = CHR ''v'' \<and> a \<noteq> [] \<and> take 1 t1 = ''.'' \<and> b \<noteq> [] \<and> take 1 t2 = ''.'' \<and> c \<noteq> []
      then Some (3 + length a + length b + length c, t3,
                 [1, 3 + length a + length b + length c])
      else None)"
    using node_regex_first [of x t]
    unfolding re_match_def Cons Let_def a_def t1_def b_def t2_def c_def t3_def
    by simp
  have lv: "leading_version s =
     (if x = CHR ''v'' \<and> a \<noteq> [] \<and> take 1 t1 = ''.'' \<and> b \<noteq> [] \<and> take 1 t2 = ''.'' \<and> c \<noteq> []
      then Some (a @ ''.'' @ b @ ''.'' @ c) else None)"
    unfolding Cons leading_version_def Let_def a_def t1_def b_def t2_def c_def
    by simp
  show ?thesis
  proof (cases "x = CHR ''v'' \<and> a \<noteq> [] \<and> take 1 t1 = ''.'' \<and> b \<noteq> [] \<and> take 1 t2 = ''.'' \<and> c \<noteq> []")
    case False
    then show ?thesis using first lv by auto
  next
    case True
    have t: "t = a @ t1" by (simp add: a_def t1_def)
    have t1: "t1 = CHR ''.'' # drop 1 t1" using True by (cases t1) auto
    have d1: "drop 1 t1 = b @ t2" by (simp add: b_def t2_def)
    have t2: "t2 = CHR ''.'' # drop 1 t2" using True by (cases t2) auto
    have d2: "drop 1 t2 = c @ t3" by (simp add: c_def t3_def)
    have whole: "t = (a @ ''.'' @ b @ ''.'' @ c) @ t3"
      using t t1 d1 t2 d2 by (metis append.assoc append_Cons append_Nil)
    have len: "length (a @ ''.'' @ b @ ''.'' @ c) = 2 + length a + length b + length c"
      by simp
    have tk: "take (2 + length a + length b + length c) t = a @ ''.'' @ b @ ''.'' @ c"
      using whole len by (metis append_eq_conv_conj)
    have "map_option (group1 s) (re_match node_regex s) =
            Some (take (2 + length a + length b + length c) t)"
      using True first by (simp add: group1_def Cons add.assoc)
    then show ?thesis using tk lv True by simp
  qed
qed

subsection \<open>Version Identity\<close>

text \<open>
  Claim C3: \<open>valid_version_string\<close> accepts exactly the strings made of three
  dot-separated groups of decimal digits, and rejects every other string, a string with
  trailing whitespace among them.

  The code does not: the pattern ends in \<open>$\<close>, which Python also lets hold before a
  final newline, so the version \<open>1.2.3\<close> followed by a newline is accepted although it
  is not of the three-group shape.
\<close>

theorem valid_version_string_trailing_newline:
  "valid_version_string (''1.2.3'' @ [CHR 0x0A]) \<and>
   \<not> three_digit_groups (''1.2.3'' @ [CHR 0x0A])"
  by (simp add: valid_version_string_def re_match_def version_regex_def
      three_digit_groups_def digits_def)

subsection \<open>The interpreter probe\<close>

lemma programs_logged [simp]: "programs (logged e w) = programs w"
  by (simp add: logged_def)

lemma try_python_usable:
  "try_python exe w = (Inr (python_usable w exe), logged (Popen [exe, ''-V'']) w)"
proof (cases "programs w [exe, ''-V'']")
  case None
  then show ?thesis by (simp add: try_python_def popen_read_def python_usable_def)
next
  case (Some texts)
  obtain out err where "texts = (out, err)" by (cases texts)
  with Some show ?thesis
    using python_regex_banner [of err]
    by (auto simp: try_python_def popen_read_def python_usable_def)
qed

text \<open>
  Claim C7: the probe tries \<open>python\<close> first and \<open>python2\<close> second; the first candidate
  that can be run and answers with a Python 2.6 or 2.7 banner is returned, and when that
  is \<open>python\<close> the second candidate is not run at all; when neither is usable the probe
  raises \<open>MissingToolError\<close> and returns no name.
\<close>

theorem python_first_usable_candidate:
  "python w =
     (if python_usable w ''python''
      then (Inr ''python'', logged (Popen [''python'', ''-V'']) w)
      else if python_usable w ''python2''
      then (Inr ''python2'',
            logged (Popen [''python2'', ''-V'']) (logged (Popen [''python'', ''-V'']) w))
      else (Inl (MissingToolError
                   ''python is either missing, newer than 2.x or older than 2.6''),
            logged (Popen [''python2'', ''-V'']) (logged (Popen [''python'', ''-V'']) w)))"
proof -
  have second: "python_usable (logged (Popen [''python'', ''-V'']) w) ''python2'' =
      python_usable w ''python2''"
    by (simp add: python_usable_def)
  show ?thesis
    by (simp add: python_def and_then_def try_python_usable second ret_def raise_def)
qed

theorem python_first_usable_candidate_witness:
  "python sample_world =
     (Inr ''python2'',
      logged (Popen [''python2'', ''-V'']) (logged (Popen [''python'', ''-V'']) sample_world))"
  using python_first_usable_candidate [of sample_world]
  by (simp add: python_usable_def python_banner_def sample_world_def)

subsection \<open>The record of calls and the environment\<close>

lemma logged_simps [simp]:
  "files (logged e w) = files w"
  "cwd (logged e w) = cwd w"
  "environ (logged e w) = environ w"
  "euid (logged e w) = euid w"
  "stdout (logged e w) = stdout w"
  "stderr (logged e w) = stderr w"
  "trace (logged e w) = trace w @ [e]"
  by (simp_all add: logged_def)

lemma stat_logged [simp]: "stat (logged e w) s = stat w s"
  by (simp add: stat_def)

lemma lstat_logged [simp]: "lstat (logged e w) s = lstat w s"
  by (simp add: lstat_def)

lemma isdir_logged [simp]: "isdir (logged e w) s = isdir w s"
  by (simp add: isdir_def)

lemma listing_logged [simp]: "listing (logged e w) s = listing w s"
  by (simp add: listing_def split: option.splits prod.splits node.splits)

lemma prefix_elsewhere:
  assumes "get_nodevers_prefix w = (Inr pfx, w)"
    and "environ w' = environ w" and "euid w' = euid w"
  shows "get_nodevers_prefix w' = (Inr pfx, w')"
  using assms by (auto simp: get_nodevers_prefix_def split: option.splits if_splits)

lemma prefix_logged [simp]:
  "get_nodevers_prefix w = (Inr pfx, w) \<Longrightarrow>
   get_nodevers_prefix (logged e w) = (Inr pfx, logged e w)"
  by (rule prefix_elsewhere) simp_all

lemma dirs_of_prefix:
  assumes "get_nodevers_prefix w = (Inr pfx, w)"
  shows "get_versions_dir w = (Inr (os_path_join pfx ''versions''), w)"
    and "get_bin_dir w = (Inr (os_path_join pfx ''bin''), w)"
    and "get_patches_dir w = (Inr (os_path_join pfx ''patches''), w)"
    and "get_version_dir ver w =
           (Inr (os_path_join (os_path_join pfx ''versions'') ver), w)"
  using assms
  by (simp_all add: get_versions_dir_def get_bin_dir_def get_patches_dir_def
      get_version_dir_def and_then_def ret_def)

lemma version_exists_isdir:
  assumes "get_nodevers_prefix w = (Inr pfx, w)"
  shows "version_exists ver w =
           (Inr (isdir w (os_path_join (os_path_join pfx ''versions'') ver)),
            logged (Path_isdir (os_path_join (os_path_join pfx ''versions'') ver)) w)"
  using dirs_of_prefix(4) [OF assms, of ver]
  by (simp add: version_exists_def and_then_def os_path_isdir_def ret_def)

lemma getopt_no_option:
  "take 1 a \<noteq> ''-'' \<Longrightarrow> getopt (a # args) = Inr ([], a # args)"
  by simp

lemma parse_no_option:
  assumes "take 1 v \<noteq> ''-''"
  shows "parse (v # rest) w =
           and_then (version_exists v) (\<lambda>installed.
             if installed then remove v
             else sys_stdout_write (''There is no such version installed.'' @ [CHR 0x0A])) w"
  using assms by (simp add: parse_def and_then_def ret_def split: prod.splits sum.splits)

lemma version_not_option:
  assumes "valid_version_string v"
  shows "take 1 v \<noteq> ''-''" and "v \<noteq> ''system''"
  using valid_version_string_starts_with_digit [OF assms] by auto

subsection \<open>Versions that are not installed\<close>

text \<open>
  Claim C2: for every version \<open>v\<close> for which no directory \<open><versions>/<v>\<close> exists,
  \<open>version_exists\<close> returns false, \<open>link_to\<close> fails with \<open>NoSuchVersionError\<close>, and
  the remove command tells the user that the version is not installed; neither of the
  two changes the file system. The prefix is taken to be known, that is
  \<open>get_nodevers_prefix\<close> returns.
\<close>

theorem not_installed_no_mutation:
  assumes "valid_version_string v"
    and "get_nodevers_prefix w = (Inr pfx, w)"
    and "\<not> isdir w (os_path_join (os_path_join pfx ''versions'') v)"
  shows "version_exists v w =
           (Inr False, logged (Path_isdir (os_path_join (os_path_join pfx ''versions'') v)) w) \<and>
         link_to v w =
           (Inl (NoSuchVersionError ''there is no such version installed''),
            logged (Path_isdir (os_path_join (os_path_join pfx ''versions'') v)) w) \<and>
         parse (v # rest) w =
           (Inr (),
            (logged (Path_isdir (os_path_join (os_path_join pfx ''versions'') v)) w)
              \<lparr>stdout := stdout w @ ''There is no such version installed.'' @ [CHR 0x0A]\<rparr>) \<and>
         files (snd (link_to v w)) = files w \<and>
         files (snd (parse (v # rest) w)) = files w"
proof -
  let ?vd = "os_path_join (os_path_join pfx ''versions'') v"
  have ve: "version_exists v w = (Inr False, logged (Path_isdir ?vd) w)"
    using version_exists_isdir [OF assms(2), of v] assms(3) by simp
  have lt: "link_to v w =
      (Inl (NoSuchVersionError ''there is no such version installed''),
       logged (Path_isdir ?vd) w)"
    using version_not_option(2) [OF assms(1)] ve
    by (simp add: link_to_def and_then_def raise_def)
  have pa: "parse (v # rest) w =
      (Inr (), (logged (Path_isdir ?vd) w)
          \<lparr>stdout := stdout w @ ''There is no such version installed.'' @ [CHR 0x0A]\<rparr>)"
    using parse_no_option [OF version_not_option(1) [OF assms(1)], of rest w] ve
    by (simp add: and_then_def sys_stdout_write_def)
  show ?thesis using ve lt pa by simp
qed

theorem not_installed_no_mutation_witness:
  "valid_version_string ''5.10.3'' \<and>
   link_to ''5.10.3'' sample_world =
     (Inl (NoSuchVersionError ''there is no such version installed''),
      logged (Path_isdir ''/opt/nodevers/versions/5.10.3'') sample_world) \<and>
   files (snd (parse [''5.10.3''] sample_world)) = files sample_world"
proof -
  have v: "valid_version_string ''5.10.3''"
    by (simp add: valid_version_string_def re_match_def version_regex_def)
  have p: "get_nodevers_prefix sample_world = (Inr ''/opt/nodevers'', sample_world)"
    by (simp add: get_nodevers_prefix_def sample_world_def)
  have d: "\<not> isdir sample_world (os_path_join (os_path_join ''/opt/nodevers'' ''versions'') ''5.10.3'')"
    by (simp add: isdir_def stat_def os_path_join_def names_def norm_step_def node_at_def
        sample_world_def eval_nat_numeral)
  show ?thesis
    using not_installed_no_mutation [OF v p d, of "[]"] v
    by (simp add: os_path_join_def)
qed

subsection \<open>The remove command and Version Identity\<close>

lemma sample_prefix:
  "get_nodevers_prefix sample_world = (Inr ''/opt/nodevers'', sample_world)"
  by (simp add: get_nodevers_prefix_def sample_world_def)

text \<open>
  Claim C4 says that the remove command rejects a malformed version string before any
  registry lookup. The command does not check the string at all: \<open>parse\<close> hands its
  first argument to \<open>version_exists\<close> as it is. Run on \<open>abc\<close>, which
  \<open>valid_version_string\<close> rejects, it asks the file system whether
  \<open>/opt/nodevers/versions/abc\<close> is a directory.
\<close>

theorem remove_command_consults_registry_with_malformed:
  "\<not> valid_version_string ''abc'' \<and>
   trace (snd (parse [''abc''] sample_world)) = [Path_isdir ''/opt/nodevers/versions/abc'']"
proof -
  have v: "\<not> valid_version_string ''abc''"
    by (simp add: valid_version_string_def re_match_def version_regex_def)
  have ve: "version_exists ''abc'' sample_world =
      (Inr False, logged (Path_isdir ''/opt/nodevers/versions/abc'') sample_world)"
    using version_exists_isdir [OF sample_prefix, of "''abc''"]
    by (simp add: isdir_def stat_def os_path_join_def names_def norm_step_def node_at_def
        sample_world_def eval_nat_numeral)
  have t: "trace sample_world = []" by (simp add: sample_world_def)
  have "parse [''abc''] sample_world =
      (Inr (), (logged (Path_isdir ''/opt/nodevers/versions/abc'') sample_world)
         \<lparr>stdout := stdout sample_world @ ''There is no such version installed.'' @ [CHR 0x0A]\<rparr>)"
    using ve by (simp add: parse_def and_then_def ret_def sys_stdout_write_def)
  then show ?thesis using v t by simp
qed

text \<open>
  Claim C4 as amended: for every first argument that does not begin with \<open>-\<close>, whether
  it is a version string or not, the remove command first looks the argument up in the
  registry; when a directory of that name exists it goes on to remove it, and otherwise
  it writes that no such version is installed.
\<close>

theorem remove_command_looks_up_unchecked:
  assumes "take 1 v \<noteq> ''-''"
    and "get_nodevers_prefix w = (Inr pfx, w)"
  shows "parse (v # rest) w =
           (if isdir w (os_path_join (os_path_join pfx ''versions'') v)
            then remove v (logged (Path_isdir (os_path_join (os_path_join pfx ''versions'') v)) w)
            else (Inr (),
                  (logged (Path_isdir (os_path_join (os_path_join pfx ''versions'') v)) w)
                    \<lparr>stdout := stdout w @ ''There is no such version installed.'' @ [CHR 0x0A]\<rparr>))"
  using parse_no_option [OF assms(1), of rest w] version_exists_isdir [OF assms(2), of v]
  by (simp add: and_then_def sys_stdout_write_def)

theorem remove_command_looks_up_unchecked_witness:
  "take 1 ''latest'' \<noteq> ''-'' \<and> \<not> valid_version_string ''latest'' \<and>
   parse [''latest''] sample_world =
     (Inr (),
      (logged (Path_isdir ''/opt/nodevers/versions/latest'') sample_world)
        \<lparr>stdout := ''There is no such version installed.'' @ [CHR 0x0A]\<rparr>)"
proof -
  have n: "take 1 ''latest'' \<noteq> ''-''" by simp
  have d: "\<not> isdir sample_world (os_path_join (os_path_join ''/opt/nodevers'' ''versions'') ''latest'')"
    by (simp add: isdir_def stat_def os_path_join_def names_def norm_step_def node_at_def
        sample_world_def eval_nat_numeral)
  have v: "\<not> valid_version_string ''latest''"
    by (simp add: valid_version_string_def re_match_def version_regex_def)
  have s: "stdout sample_world = []" by (simp add: sample_world_def)
  show ?thesis
    using remove_command_looks_up_unchecked [OF n sample_prefix, of "[]"] d v s
    by (simp add: os_path_join_def)
qed

subsection \<open>Active-version discovery\<close>

lemma current_version_active:
  "current_version w =
     ((case programs w [''node'', ''-v''] of
         None \<Rightarrow> Inl (OSError ENOENT)
       | Some texts \<Rightarrow>
           (case active_version w of None \<Rightarrow> Inl AttributeError | Some v \<Rightarrow> Inr v)),
      logged (Popen [''node'', ''-v'']) w)"
proof (cases "programs w [''node'', ''-v'']")
  case None
  then show ?thesis
    by (simp add: current_version_def and_then_def popen_read_def)
next
  case (Some texts)
  obtain node_output errs where t: "texts = (node_output, errs)" by (cases texts)
  have lv: "leading_version node_output =
      map_option (group1 node_output) (re_match node_regex node_output)"
    by (simp add: current_version_parse)
  show ?thesis
    using Some t
    by (cases "re_match node_regex node_output")
       (auto simp: current_version_def and_then_def popen_read_def active_version_def
          raise_def ret_def lv)
qed

lemma and_then_appends:
  assumes "\<exists>evs. trace (snd (m w)) = trace w @ evs"
    and "\<And>x w'. \<exists>evs. trace (snd (f x w')) = trace w' @ evs"
  shows "\<exists>evs. trace (snd (and_then m f w)) = trace w @ evs"
proof (cases "m w")
  case (Pair r w1)
  obtain evs where e: "trace w1 = trace w @ evs" using assms(1) Pair by auto
  show ?thesis
  proof (cases r)
    case (Inl x)
    then show ?thesis using Pair e by (simp add: and_then_def)
  next
    case (Inr x)
    obtain evs' where "trace (snd (f x w1)) = trace w1 @ evs'" using assms(2) by blast
    then show ?thesis using Pair Inr e by (simp add: and_then_def)
  qed
qed

lemma prefix_appends: "\<exists>evs. trace (snd (get_nodevers_prefix w)) = trace w @ evs"
  by (simp add: get_nodevers_prefix_def split: option.splits)

lemma ret_appends: "\<exists>evs. trace (snd (ret x w)) = trace w @ evs"
  by (simp add: ret_def)

lemma raise_appends: "\<exists>evs. trace (snd (raise x w)) = trace w @ evs"
  by (simp add: raise_def)

lemma get_bin_dir_appends: "\<exists>evs. trace (snd (get_bin_dir w)) = trace w @ evs"
  unfolding get_bin_dir_def by (intro and_then_appends prefix_appends ret_appends)

lemma get_version_dir_appends: "\<exists>evs. trace (snd (get_version_dir v w)) = trace w @ evs"
  unfolding get_version_dir_def get_versions_dir_def
  by (intro and_then_appends prefix_appends ret_appends)

lemma os_path_lexists_appends: "\<exists>evs. trace (snd (os_path_lexists s w)) = trace w @ evs"
  by (simp add: os_path_lexists_def)

lemma os_unlink_appends: "\<exists>evs. trace (snd (os_unlink s w)) = trace w @ evs"
  by (simp add: os_unlink_def split: option.splits node.splits)

lemma shutil_rmtree_appends: "\<exists>evs. trace (snd (shutil_rmtree s w)) = trace w @ evs"
  by (simp add: shutil_rmtree_def split: option.splits node.splits)

lemma link_to_system_appends: "\<exists>evs. trace (snd (link_to ''system'' w)) = trace w @ evs"
proof -
  have "\<And>there w'. \<exists>evs. trace (snd ((if there then and_then get_bin_dir os_unlink else ret ()) w')) =
      trace w' @ evs"
    by (auto intro!: and_then_appends get_bin_dir_appends os_unlink_appends ret_appends)
  then show ?thesis
    unfolding link_to_def
    by (auto intro!: and_then_appends get_bin_dir_appends os_path_lexists_appends)
qed

text \<open>
  Claim C10: whatever version \<open>remove\<close> is asked to delete, the first thing it does
  is to run the runtime with its version flag, before any deletion; when the runtime
  cannot be run or its answer does not begin with \<open>v<major>.<minor>.<patch>\<close>, \<open>remove\<close>
  raises and the file system is left as it was.
\<close>

theorem remove_discovers_before_deleting:
  "(\<exists>evs. trace (snd (remove v w)) = trace w @ Popen [''node'', ''-v''] # evs) \<and>
   (active_version w = None \<longrightarrow>
      (\<exists>e. remove v w = (Inl e, logged (Popen [''node'', ''-v'']) w)) \<and>
      files (snd (remove v w)) = files w)"
proof -
  let ?w1 = "logged (Popen [''node'', ''-v'']) w"
  obtain r where cv: "current_version w = (r, ?w1)"
    using current_version_active [of w] by simp
  have switch: "\<And>cur w'. \<exists>evs.
      trace (snd ((if v = cur then link_to ''system'' else ret ()) w')) = trace w' @ evs"
    by (simp add: link_to_system_appends ret_appends)
  have rest: "\<And>cur w'. \<exists>evs. trace (snd (and_then (if v = cur then link_to ''system'' else ret ())
        (\<lambda>u. and_then (get_version_dir v) shutil_rmtree) w')) = trace w' @ evs"
    by (intro and_then_appends switch get_version_dir_appends shutil_rmtree_appends)
  have first: "\<exists>evs. trace (snd (remove v w)) = trace w @ Popen [''node'', ''-v''] # evs"
  proof (cases r)
    case (Inl e)
    then show ?thesis using cv by (simp add: remove_def and_then_def)
  next
    case (Inr cur)
    obtain evs where "trace (snd (and_then (if v = cur then link_to ''system'' else ret ())
        (\<lambda>u. and_then (get_version_dir v) shutil_rmtree) ?w1)) = trace ?w1 @ evs"
      using rest [of cur ?w1] by blast
    then show ?thesis using cv Inr by (simp add: remove_def and_then_def)
  qed
  have fail: "active_version w = None \<longrightarrow>
      (\<exists>e. remove v w = (Inl e, ?w1)) \<and> files (snd (remove v w)) = files w"
  proof
    assume "active_version w = None"
    then obtain e where "current_version w = (Inl e, ?w1)"
      using current_version_active [of w] by (auto split: option.splits)
    then have "remove v w = (Inl e, ?w1)" by (simp add: remove_def and_then_def)
    then show "(\<exists>e. remove v w = (Inl e, ?w1)) \<and> files (snd (remove v w)) = files w"
      by simp
  qed
  show ?thesis using first fail by blast
qed


theorem remove_discovers_before_deleting_witness:
  "active_version (sample_world\<lparr>programs := \<lambda>argv. None\<rparr>) = None \<and>
   remove ''4.0.0'' (sample_world\<lparr>programs := \<lambda>argv. None\<rparr>) =
     (Inl (OSError ENOENT),
      logged (Popen [''node'', ''-v'']) (sample_world\<lparr>programs := \<lambda>argv. None\<rparr>)) \<and>
   files (snd (remove ''4.0.0'' (sample_world\<lparr>programs := \<lambda>argv. None\<rparr>))) =
     files sample_world"
proof -
  have a: "active_version (sample_world\<lparr>programs := \<lambda>argv. None\<rparr>) = None"
    by (simp add: active_version_def)
  have c: "current_version (sample_world\<lparr>programs := \<lambda>argv. None\<rparr>) =
      (Inl (OSError ENOENT),
       logged (Popen [''node'', ''-v'']) (sample_world\<lparr>programs := \<lambda>argv. None\<rparr>))"
    by (simp add: current_version_active)
  show ?thesis
    using remove_discovers_before_deleting [of "''4.0.0''" "sample_world\<lparr>programs := \<lambda>argv. None\<rparr>"] a c
    by (simp add: remove_def and_then_def)
qed

subsection \<open>The patch list\<close>

lemma observe_trace_update [simp]:
  "isdir (w\<lparr>trace := t\<rparr>) s = isdir w s"
  "listing (w\<lparr>trace := t\<rparr>) s = listing w s"
  by (simp_all add: isdir_def listing_def stat_def split: option.splits prod.splits node.splits)

lemma append_patches_result:
  "append_patches dir ns acc w =
     (Inr (acc @ map (os_path_join dir) (filter (\<lambda>n. \<not> isdir w (os_path_join dir n)) ns)),
      w\<lparr>trace := trace w @ map (\<lambda>n. Path_isdir (os_path_join dir n)) ns\<rparr>)"
proof (induction ns arbitrary: acc w)
  case Nil
  then show ?case by (simp add: ret_def)
next
  case (Cons n ns)
  show ?case
    by (simp add: and_then_def os_path_isdir_def Cons.IH logged_def)
qed

lemma isdir_listing: "isdir w s \<Longrightarrow> \<exists>ns. listing w s = Inr ns"
  by (auto simp: isdir_def listing_def split: option.splits prod.splits node.splits)

text \<open>
  Claim C8: for every version, \<open>get_patches_list\<close> returns the entries of the global
  patch directory that are not directories, followed, only when the patch directory of
  the version exists, by the entries of that directory that are not directories; so
  every global patch comes before every patch of the version. The global directory is
  listed in any case, so it has to exist.
\<close>

theorem patches_global_before_version:
  assumes "get_nodevers_prefix w = (Inr pfx, w)"
    and "isdir w (os_path_join (os_path_join pfx ''patches'') ''global'')"
  shows "fst (get_patches_list ver w) =
           Inr (patch_files w (os_path_join (os_path_join pfx ''patches'') ''global'') @
                (if isdir w (os_path_join (os_path_join pfx ''patches'') ver)
                 then patch_files w (os_path_join (os_path_join pfx ''patches'') ver)
                 else [])) \<and>
         files (snd (get_patches_list ver w)) = files w"
proof -
  let ?gd = "os_path_join (os_path_join pfx ''patches'') ''global''"
  let ?vd = "os_path_join (os_path_join pfx ''patches'') ver"
  obtain gs where gs: "listing w ?gd = Inr gs" using isdir_listing [OF assms(2)] by blast
  have pd: "get_patches_dir w = (Inr (os_path_join pfx ''patches''), w)"
    by (rule dirs_of_prefix(3) [OF assms(1)])
  show ?thesis
  proof (cases "isdir w ?vd")
    case False
    then show ?thesis
      using gs pd
      by (simp add: get_patches_list_def and_then_def os_listdir_def append_patches_result
          os_path_isdir_def ret_def patch_files_def)
  next
    case True
    then obtain vs where vs: "listing w ?vd = Inr vs" using isdir_listing by blast
    show ?thesis
      using gs pd True vs
      by (simp add: get_patches_list_def and_then_def os_listdir_def append_patches_result
          os_path_isdir_def ret_def patch_files_def)
  qed
qed


theorem patches_global_before_version_witness:
  "fst (get_patches_list ''5.10.2'' sample_world) =
     Inr [''/opt/nodevers/patches/global/a'', ''/opt/nodevers/patches/global/b'',
          ''/opt/nodevers/patches/5.10.2/c'']"
proof -
  have g: "isdir sample_world (os_path_join (os_path_join ''/opt/nodevers'' ''patches'') ''global'')"
    by code_simp
  have v: "isdir sample_world (os_path_join (os_path_join ''/opt/nodevers'' ''patches'') ''5.10.2'')"
    by code_simp
  have pg: "patch_files sample_world (os_path_join (os_path_join ''/opt/nodevers'' ''patches'') ''global'') =
      [''/opt/nodevers/patches/global/a'', ''/opt/nodevers/patches/global/b'']"
    by code_simp
  have pv: "patch_files sample_world (os_path_join (os_path_join ''/opt/nodevers'' ''patches'') ''5.10.2'') =
      [''/opt/nodevers/patches/5.10.2/c'']"
    by code_simp
  show ?thesis
    using patches_global_before_version [OF sample_prefix g, of "''5.10.2''"] v pg pv
    by simp
qed

subsection \<open>The file table\<close>

lemma walk_reaches:
  "walk t p cs =
     (if \<forall>k<length cs. p @ take k cs = [] \<or> map_of t (p @ take k cs) = Some Dir
      then (if p @ cs = [] then Some Dir else map_of t (p @ cs)) else None)"
proof (induction cs arbitrary: p)
  case Nil
  then show ?case by simp
next
  case (Cons c cs)
  define here where "here = (p = [] \<or> map_of t p = Some Dir)"
  define below where "below =
    (\<forall>k<length cs. (p @ [c]) @ take k cs = [] \<or> map_of t ((p @ [c]) @ take k cs) = Some Dir)"
  define whole where "whole =
    (\<forall>k<length (c # cs). p @ take k (c # cs) = [] \<or> map_of t (p @ take k (c # cs)) = Some Dir)"
  have split: "whole = (here \<and> below)"
    unfolding whole_def here_def below_def by (auto simp: less_Suc_eq_0_disj)
  have "walk t p (c # cs) = (if here then walk t (p @ [c]) cs else None)"
    by (simp add: here_def)
  also have "walk t (p @ [c]) cs = (if below then map_of t (p @ c # cs) else None)"
    unfolding Cons.IH below_def by auto
  finally have "walk t p (c # cs) =
      (if whole then (if p @ c # cs = [] then Some Dir else map_of t (p @ c # cs)) else None)"
    unfolding split by simp
  then show ?case unfolding whole_def .
qed

lemma strict_prefix_take:
  "strict_prefix r q = (\<exists>k<length q. r = take k q)"
proof
  assume "strict_prefix r q"
  then obtain z where "q = r @ z" "z \<noteq> []" by (auto simp: strict_prefix_def prefix_def)
  then have "length r < length q" "r = take (length r) q" by simp_all
  then show "\<exists>k<length q. r = take k q" by blast
next
  assume "\<exists>k<length q. r = take k q"
  then obtain k where k: "k < length q" "r = take k q" by blast
  then have "prefix r q" by (simp add: take_is_prefix)
  moreover have "r \<noteq> q" using k by (metis length_take min.strict_order_iff nat_neq_iff min_less_iff_conj)
  ultimately show "strict_prefix r q" by (simp add: strict_prefix_def)
qed

lemma node_at_reaches:
  "node_at t q =
     (if \<forall>r. strict_prefix r q \<longrightarrow> r = [] \<or> map_of t r = Some Dir
      then (if q = [] then Some Dir else map_of t q) else None)"
proof -
  define ways where "ways = (\<forall>r. strict_prefix r q \<longrightarrow> r = [] \<or> map_of t r = Some Dir)"
  have "(\<forall>k<length q. [] @ take k q = [] \<or> map_of t ([] @ take k q) = Some Dir) = ways"
    unfolding strict_prefix_take ways_def by auto
  then have "node_at t q = (if ways then (if q = [] then Some Dir else map_of t q) else None)"
    unfolding node_at_def walk_reaches by simp
  then show ?thesis unfolding ways_def .
qed

lemma node_at_root [simp]: "node_at t [] = Some Dir"
  by (simp add: node_at_def)

lemma node_at_entry: "node_at t q = Some n \<Longrightarrow> q \<noteq> [] \<Longrightarrow> map_of t q = Some n"
  by (simp add: node_at_reaches split: if_splits)

lemma node_at_above:
  assumes "node_at t q \<noteq> None" and "strict_prefix r q"
  shows "node_at t r = Some Dir"
proof -
  have all: "\<forall>r'. strict_prefix r' q \<longrightarrow> r' = [] \<or> map_of t r' = Some Dir"
    using assms(1) by (simp add: node_at_reaches split: if_splits)
  have "\<forall>r'. strict_prefix r' r \<longrightarrow> r' = [] \<or> map_of t r' = Some Dir"
    using all assms(2) by (meson strict_prefix_def prefix_order.dual_order.strict_trans)
  moreover have "r = [] \<or> map_of t r = Some Dir" using all assms(2) by blast
  ultimately show ?thesis by (auto simp: node_at_reaches)
qed

lemma nothing_below_non_directory:
  assumes "node_at t p \<noteq> Some Dir" and "strict_prefix p q"
  shows "node_at t q = None"
  using assms node_at_above by blast

lemma map_of_del: "map_of (del p t) q = (if prefix p q then None else map_of t q)"
  unfolding del_def by (induction t) auto

lemma map_of_put:
  "map_of (put p n t) q = (if q = p then Some n else if prefix p q then None else map_of t q)"
  by (auto simp: put_def map_of_del map_add_def split: option.splits)

lemma node_at_del:
  assumes "p \<noteq> []"
  shows "node_at (del p t) q = (if prefix p q then None else node_at t q)"
proof (cases "prefix p q")
  case True
  show ?thesis
  proof (cases "q = p")
    case True
    then show ?thesis using assms by (simp add: node_at_reaches map_of_del)
  next
    case False
    then have "strict_prefix p q" using True by (simp add: strict_prefix_def)
    moreover have "map_of (del p t) p = None" by (simp add: map_of_del)
    ultimately have "\<not> (\<forall>r. strict_prefix r q \<longrightarrow> r = [] \<or> map_of (del p t) r = Some Dir)"
      using assms by force
    then have "node_at (del p t) q = None" by (subst node_at_reaches) auto
    then show ?thesis using True by simp
  qed
next
  case False
  have "\<And>r. prefix r q \<Longrightarrow> \<not> prefix p r"
    using False prefix_order.trans by blast
  then have "\<And>r. prefix r q \<Longrightarrow> map_of (del p t) r = map_of t r"
    by (simp add: map_of_del)
  then show ?thesis
    using False by (auto simp: node_at_reaches strict_prefix_def)
qed

lemma node_at_put:
  assumes "p \<noteq> []" and "node_at t (butlast p) = Some Dir"
  shows "node_at (put p n t) q =
           (if q = p then Some n else if prefix p q then None else node_at t q)"
proof (cases "prefix p q")
  case True
  show ?thesis
  proof (cases "q = p")
    case True
    have "\<And>r. strict_prefix r p \<Longrightarrow> r = [] \<or> map_of t r = Some Dir"
    proof -
      fix r assume r: "strict_prefix r p"
      then have "prefix r (butlast p)"
        using assms(1) by (metis append_butlast_last_id prefix_snoc strict_prefix_def)
      then have "r = butlast p \<or> strict_prefix r (butlast p)" by (auto simp: strict_prefix_def)
      then have "node_at t r = Some Dir" using assms(2) node_at_above by fastforce
      then show "r = [] \<or> map_of t r = Some Dir" using node_at_entry by blast
    qed
    moreover have "\<And>r. strict_prefix r p \<Longrightarrow> map_of (put p n t) r = map_of t r"
      by (auto simp: map_of_put strict_prefix_def)
    ultimately show ?thesis using True assms(1) by (simp add: node_at_reaches map_of_put)
  next
    case False
    then have sp: "strict_prefix p q" using True by (simp add: strict_prefix_def)
    have "map_of (put p n t) q = None" using True False by (simp add: map_of_put)
    then show ?thesis using True False sp by (auto simp: node_at_reaches)
  qed
next
  case False
  have "\<And>r. prefix r q \<Longrightarrow> \<not> prefix p r \<and> r \<noteq> p"
    using False prefix_order.trans by blast
  then have "\<And>r. prefix r q \<Longrightarrow> map_of (put p n t) r = map_of t r"
    by (simp add: map_of_put)
  then show ?thesis
    using False by (auto simp: node_at_reaches strict_prefix_def)
qed

subsection \<open>Path strings\<close>

lemma split_on_nonempty: "split_on c s \<noteq> []"
  by (induction s) (auto split: list.splits)

lemma split_on_no_separator: "c \<notin> set s \<Longrightarrow> split_on c s = [s]"
  by (induction s) auto

lemma split_on_append: "split_on c (a @ c # b) = split_on c a @ split_on c b"
proof (induction a)
  case Nil
  then show ?case by simp
next
  case (Cons x a)
  obtain w ws where "split_on c a = w # ws"
    using split_on_nonempty [of c a] by (cases "split_on c a") auto
  then show ?case using Cons by simp
qed

lemma norm_step_empty [simp]: "norm_step p [] = p"
  by (simp add: norm_step_def)

lemma names_empty [simp]: "names base [] = base"
  by (simp add: names_def)

lemma names_join:
  assumes "take 1 b \<noteq> ''/''"
  shows "names base (os_path_join a b) =
           foldl norm_step (names base a) (split_on CHR ''/'' b)"
proof (cases "a = []")
  case True
  then show ?thesis using assms by (simp add: os_path_join_def names_def)
next
  case False
  have abs: "\<And>z. take 1 (a @ z) = take 1 a" using False by (cases a) auto
  show ?thesis
  proof (cases "last a = CHR ''/''")
    case True
    then obtain a' where a: "a = a' @ ''/''"
      using False by (metis append_butlast_last_id)
    have j: "os_path_join a b = a' @ CHR ''/'' # b"
      using assms True False a by (simp add: os_path_join_def)
    have "split_on CHR ''/'' a = split_on CHR ''/'' a' @ [[]]"
      using split_on_append [of "CHR ''/''" a' "[]"] a by simp
    then have "names base a =
        foldl norm_step (if take 1 a = ''/'' then [] else base) (split_on CHR ''/'' a')"
      by (simp add: names_def)
    moreover have "take 1 (os_path_join a b) = take 1 a"
      using abs [of b] assms True False by (simp add: os_path_join_def)
    ultimately show ?thesis
      unfolding names_def [of base "os_path_join a b"] j [symmetric]
      using j by (simp add: split_on_append)
  next
    case nl: False
    have j: "os_path_join a b = a @ CHR ''/'' # b"
      using assms nl False by (simp add: os_path_join_def)
    have "take 1 (os_path_join a b) = take 1 a"
      using abs [of "CHR ''/'' # b"] j by simp
    then show ?thesis
      using j by (simp add: names_def split_on_append)
  qed
qed

lemma names_join_name:
  assumes "n \<noteq> []" and "CHR ''/'' \<notin> set n" and "n \<noteq> ''.''" and "n \<noteq> ''..''"
  shows "names base (os_path_join a n) = names base a @ [n]"
proof -
  have "take 1 n \<noteq> ''/''" using assms(1,2) by (cases n) auto
  then show ?thesis
    using assms by (simp add: names_join split_on_no_separator norm_step_def)
qed

lemma os_path_join_nonempty: "b \<noteq> [] \<Longrightarrow> os_path_join a b \<noteq> []"
  by (simp add: os_path_join_def)

subsection \<open>The shape of a version string\<close>

lemma run_Many1_Mark_Eol:
  "run [Many1 Digit, Mark, Eol] (i, s, m) =
     (if takeWhile (in_class Digit) s = [] then []
      else if dropWhile (in_class Digit) s = [] \<or> dropWhile (in_class Digit) s = [CHR 0x0A]
      then [(i + length (takeWhile (in_class Digit) s), dropWhile (in_class Digit) s,
             m @ [i + length (takeWhile (in_class Digit) s)])]
      else [])"
proof -
  have "run (Many1 Digit # [Mark, Eol]) (i, s, m) =
      (if takeWhile (in_class Digit) s = [] then []
       else run [Mark, Eol] (i + length (takeWhile (in_class Digit) s),
              dropWhile (in_class Digit) s, m))"
  proof (rule run_Many1_full)
    fix k assume "1 \<le> k" and "k < length (takeWhile (in_class Digit) s)"
    then obtain x xs where "drop k s = x # xs" "in_class Digit x"
      using drop_in_takeWhile by blast
    then show "run [Mark, Eol] (i + k, drop k s, m) = []" by auto
  qed
  then show ?thesis by simp
qed

lemma version_regex_shape:
  "valid_version_string s =
     (let a = takeWhile (in_class Digit) s; t1 = dropWhile (in_class Digit) s;
          b = takeWhile (in_class Digit) (drop 1 t1); t2 = dropWhile (in_class Digit) (drop 1 t1);
          c = takeWhile (in_class Digit) (drop 1 t2); t3 = dropWhile (in_class Digit) (drop 1 t2)
      in a \<noteq> [] \<and> take 1 t1 = ''.'' \<and> b \<noteq> [] \<and> take 1 t2 = ''.'' \<and> c \<noteq> [] \<and>
         (t3 = [] \<or> t3 = [CHR 0x0A]))"
proof -
  define a where "a = takeWhile (in_class Digit) s"
  define t1 where "t1 = dropWhile (in_class Digit) s"
  define b where "b = takeWhile (in_class Digit) (drop 1 t1)"
  define t2 where "t2 = dropWhile (in_class Digit) (drop 1 t1)"
  define c where "c = takeWhile (in_class Digit) (drop 1 t2)"
  define t3 where "t3 = dropWhile (in_class Digit) (drop 1 t2)"
  define tailr where "tailr = [Many1 Digit, Mark, Eol]"
  define r2 where "r2 = Many1 Digit # Mark # One (Chr CHR ''.'') # Mark # tailr"
  define r1 where "r1 = Many1 Digit # Mark # One (Chr CHR ''.'') # Mark # r2"
  have vr: "version_regex = Bol # Mark # r1"
    by (simp add: version_regex_def r1_def r2_def tailr_def)
  have s0: "run version_regex (0, s, []) = run r1 (0, s, [0])"
    unfolding vr by simp
  have s1: "run r1 (0, s, [0]) =
      (if a = [] \<or> take 1 t1 \<noteq> ''.'' then []
       else run r2 (Suc (length a), drop 1 t1, [0, length a, Suc (length a)]))"
    unfolding r1_def a_def t1_def
    by (simp add: run_Many1_Mark_then_Chr [OF dot_not_digit] run_One_Chr
        del: run.simps(2,3) in_class.simps)
  have s2: "run r2 (Suc (length a), drop 1 t1, [0, length a, Suc (length a)]) =
      (if b = [] \<or> take 1 t2 \<noteq> ''.'' then []
       else run tailr (Suc (Suc (length a + length b)), drop 1 t2,
              [0, length a, Suc (length a), Suc (length a + length b),
               Suc (Suc (length a + length b))]))"
    unfolding r2_def b_def t2_def
    by (simp add: run_Many1_Mark_then_Chr [OF dot_not_digit] run_One_Chr
        del: run.simps(2,3) in_class.simps)
  have s3: "\<And>i m. (run tailr (i, drop 1 t2, m) \<noteq> []) = (c \<noteq> [] \<and> (t3 = [] \<or> t3 = [CHR 0x0A]))"
    unfolding tailr_def c_def t3_def run_Many1_Mark_Eol by simp
  have "(run version_regex (0, s, []) \<noteq> []) =
      (a \<noteq> [] \<and> take 1 t1 = ''.'' \<and> b \<noteq> [] \<and> take 1 t2 = ''.'' \<and> c \<noteq> [] \<and>
       (t3 = [] \<or> t3 = [CHR 0x0A]))"
    unfolding s0 s1 s2 using s3 by auto
  moreover have "valid_version_string s = (run version_regex (0, s, []) \<noteq> [])"
    by (simp add: valid_version_string_def re_match_def split: list.splits)
  ultimately show ?thesis
    unfolding Let_def a_def t1_def b_def t2_def c_def t3_def by simp
qed

lemma digits_takeWhile:
  "takeWhile (in_class Digit) s \<noteq> [] \<Longrightarrow> digits (takeWhile (in_class Digit) s)"
  unfolding digits_def list_all_iff by (blast dest: set_takeWhileD)

lemma valid_version_string_parts:
  assumes "valid_version_string s"
  shows "\<exists>a b c e. s = a @ ''.'' @ b @ ''.'' @ c @ e \<and> digits a \<and> digits b \<and> digits c \<and>
           (e = [] \<or> e = [CHR 0x0A])"
proof -
  define a where "a = takeWhile (in_class Digit) s"
  define t1 where "t1 = dropWhile (in_class Digit) s"
  define b where "b = takeWhile (in_class Digit) (drop 1 t1)"
  define t2 where "t2 = dropWhile (in_class Digit) (drop 1 t1)"
  define c where "c = takeWhile (in_class Digit) (drop 1 t2)"
  define t3 where "t3 = dropWhile (in_class Digit) (drop 1 t2)"
  have sh: "a \<noteq> [] \<and> take 1 t1 = ''.'' \<and> b \<noteq> [] \<and> take 1 t2 = ''.'' \<and> c \<noteq> [] \<and>
      (t3 = [] \<or> t3 = [CHR 0x0A])"
    using assms unfolding version_regex_shape Let_def a_def t1_def b_def t2_def c_def t3_def
    by simp
  obtain u1 where u1: "t1 = CHR ''.'' # u1" using sh by (cases t1) auto
  obtain u2 where u2: "t2 = CHR ''.'' # u2" using sh by (cases t2) auto
  have s: "s = a @ t1" by (simp add: a_def t1_def)
  have d1: "u1 = b @ t2" using u1 by (simp add: b_def t2_def)
  have d2: "u2 = c @ t3" using u2 by (simp add: c_def t3_def)
  have whole: "s = a @ ''.'' @ b @ ''.'' @ c @ t3"
    by (simp add: s u1 d1 u2 d2)
  have da: "digits a" using sh unfolding a_def by (simp add: digits_takeWhile)
  have db: "digits b" using sh unfolding b_def by (simp add: digits_takeWhile)
  have dc: "digits c" using sh unfolding c_def by (simp add: digits_takeWhile)
  show ?thesis using whole da db dc sh by blast
qed

lemma digits_no_slash: "digits a \<Longrightarrow> CHR ''/'' \<notin> set a"
  by (auto simp: digits_def list_all_iff)

lemma valid_version_string_name:
  assumes "valid_version_string v"
  shows "v \<noteq> []" and "CHR ''/'' \<notin> set v" and "v \<noteq> ''.''" and "v \<noteq> ''..''"
proof -
  obtain a b c e where v: "v = a @ ''.'' @ b @ ''.'' @ c @ e"
    and d: "digits a" "digits b" "digits c" and e: "e = [] \<or> e = [CHR 0x0A]"
    using valid_version_string_parts [OF assms] by blast
  show "v \<noteq> []" using v by simp
  show "CHR ''/'' \<notin> set v" using v d e digits_no_slash by auto
  obtain x r where "v = x # r" "in_class Digit x"
    using valid_version_string_starts_with_digit [OF assms] by blast
  then show "v \<noteq> ''.''" and "v \<noteq> ''..''" by auto
qed

subsection \<open>Switching the Active Link\<close>

lemma lstat_root_is_directory:
  assumes "lstat w s \<noteq> Some Dir"
  shows "lstat w s = None \<or> names (cwd w) s \<noteq> []"
  using assms by (auto simp: lstat_def)

lemma os_unlink_result:
  "os_unlink s w =
     (case lstat w s of
        None \<Rightarrow> (Inl (OSError ENOENT), logged (Unlink s) w)
      | Some Dir \<Rightarrow> (Inl (OSError EISDIR), logged (Unlink s) w)
      | Some n \<Rightarrow>
          (Inr (), w\<lparr>files := del (names (cwd w) s) (files w), trace := trace w @ [Unlink s]\<rparr>))"
  by (simp add: os_unlink_def logged_def split: option.splits node.splits)

lemma lstat_after_unlink:
  assumes "lstat w s = Some n" and "n \<noteq> Dir"
  shows "lstat (w\<lparr>files := del (names (cwd w) s) (files w), trace := t\<rparr>) s = None"
proof -
  have "names (cwd w) s \<noteq> []" using assms by (auto simp: lstat_def split: if_splits)
  then show ?thesis by (simp add: lstat_def node_at_del)
qed

lemma dirs_elsewhere:
  assumes "get_nodevers_prefix w = (Inr pfx, w)"
    and "environ w' = environ w" and "euid w' = euid w"
  shows "get_bin_dir w' = (Inr (os_path_join pfx ''bin''), w')"
    and "get_version_dir ver w' =
           (Inr (os_path_join (os_path_join pfx ''versions'') ver), w')"
  using dirs_of_prefix [OF prefix_elsewhere [OF assms]] by simp_all

lemma lstat_trace_update [simp]: "lstat (w\<lparr>trace := t\<rparr>) s = lstat w s"
  by (simp add: lstat_def)

lemma stat_trace_update [simp]: "stat (w\<lparr>trace := t\<rparr>) s = stat w s"
  by (simp add: stat_def)

lemma link_to_system_result:
  assumes "get_nodevers_prefix w = (Inr pfx, w)"
  shows "link_to ''system'' w =
     (case lstat w (os_path_join pfx ''bin'') of
        None \<Rightarrow> (Inr (), logged (Path_lexists (os_path_join pfx ''bin'')) w)
      | Some Dir \<Rightarrow>
          (Inl (OSError EISDIR),
           w\<lparr>trace := trace w @ [Path_lexists (os_path_join pfx ''bin''),
                                  Unlink (os_path_join pfx ''bin'')]\<rparr>)
      | Some n \<Rightarrow>
          (Inr (),
           w\<lparr>files := del (names (cwd w) (os_path_join pfx ''bin'')) (files w),
             trace := trace w @ [Path_lexists (os_path_join pfx ''bin''),
                                  Unlink (os_path_join pfx ''bin'')]\<rparr>))"
  by (simp add: link_to_def and_then_def dirs_elsewhere(1) [OF assms] os_path_lexists_def
      os_unlink_result ret_def logged_def split: option.splits node.splits)

text \<open>
  Claim C6: \<open>link_to("system")\<close> called twice in a row leaves the Active Link absent
  after each call, and the second call, which finds no link, unlinks nothing and raises
  nothing. The prefix is taken to be known and the path of the Active Link not to be
  occupied by a directory (which \<open>os.unlink\<close> cannot remove).
\<close>

theorem activate_system_twice:
  assumes "get_nodevers_prefix w = (Inr pfx, w)"
    and "lstat w (os_path_join pfx ''bin'') \<noteq> Some Dir"
  shows "\<exists>w1. link_to ''system'' w = (Inr (), w1) \<and>
           lstat w1 (os_path_join pfx ''bin'') = None \<and>
           link_to ''system'' w1 = (Inr (), logged (Path_lexists (os_path_join pfx ''bin'')) w1) \<and>
           lstat (snd (link_to ''system'' w1)) (os_path_join pfx ''bin'') = None"
proof -
  let ?b = "os_path_join pfx ''bin''"
  obtain w1 where first: "link_to ''system'' w = (Inr (), w1)"
    and absent: "lstat w1 ?b = None"
    and env: "environ w1 = environ w" "euid w1 = euid w"
  proof (cases "lstat w ?b")
    case None
    then show ?thesis
      using link_to_system_result [OF assms(1)] that [of "logged (Path_lexists ?b) w"] by simp
  next
    case (Some n)
    then have n: "n \<noteq> Dir" using assms(2) by simp
    let ?w1 = "w\<lparr>files := del (names (cwd w) ?b) (files w),
                 trace := trace w @ [Path_lexists ?b, Unlink ?b]\<rparr>"
    have "link_to ''system'' w = (Inr (), ?w1)"
      using link_to_system_result [OF assms(1)] Some n by (cases n) simp_all
    moreover have "lstat ?w1 ?b = None" by (rule lstat_after_unlink [OF Some n])
    ultimately show ?thesis using that [of ?w1] by simp
  qed
  have p1: "get_nodevers_prefix w1 = (Inr pfx, w1)"
    by (rule prefix_elsewhere [OF assms(1) env])
  have second: "link_to ''system'' w1 = (Inr (), logged (Path_lexists ?b) w1)"
    using link_to_system_result [OF p1] absent by simp
  show ?thesis using first absent second by simp
qed

theorem activate_system_twice_witness:
  "\<exists>w1. link_to ''system'' sample_world = (Inr (), w1) \<and>
     lstat w1 ''/opt/nodevers/bin'' = None \<and>
     link_to ''system'' w1 = (Inr (), logged (Path_lexists ''/opt/nodevers/bin'') w1) \<and>
     lstat (snd (link_to ''system'' w1)) ''/opt/nodevers/bin'' = None"
proof -
  have l: "lstat sample_world (os_path_join ''/opt/nodevers'' ''bin'') \<noteq> Some Dir"
    by code_simp
  show ?thesis
    using activate_system_twice [OF sample_prefix l] by (simp add: os_path_join_def)
qed

subsection \<open>Removing the active version\<close>

lemma shutil_rmtree_trace: "trace (snd (shutil_rmtree s w)) = trace w @ [Rmtree s]"
  by (simp add: shutil_rmtree_def split: option.splits node.splits)

text \<open>
  Claim C1: when \<open>v\<close> is the version the runtime reports as active, \<open>remove(v)\<close> first
  switches to system mode, taking the Active Link away, and only then deletes the
  directory of the version: the deletion is \<open>shutil.rmtree\<close> run in the world the
  switch has left, in which no Active Link exists, and in the record of calls the
  \<open>unlink\<close> comes before the \<open>rmtree\<close>. The prefix is taken to be known and the path
  of the Active Link not to be occupied by a directory.
\<close>

theorem remove_active_switches_first:
  assumes "active_version w = Some v"
    and "get_nodevers_prefix w = (Inr pfx, w)"
    and "lstat w (os_path_join pfx ''bin'') \<noteq> Some Dir"
  shows "\<exists>w2. link_to ''system'' (logged (Popen [''node'', ''-v'']) w) = (Inr (), w2) \<and>
           lstat w2 (os_path_join pfx ''bin'') = None \<and>
           remove v w = shutil_rmtree (os_path_join (os_path_join pfx ''versions'') v) w2 \<and>
           trace (snd (remove v w)) =
             trace w @ [Popen [''node'', ''-v''], Path_lexists (os_path_join pfx ''bin'')] @
             (if lstat w (os_path_join pfx ''bin'') = None then []
              else [Unlink (os_path_join pfx ''bin'')]) @
             [Rmtree (os_path_join (os_path_join pfx ''versions'') v)]"
proof -
  let ?b = "os_path_join pfx ''bin''"
  let ?vd = "os_path_join (os_path_join pfx ''versions'') v"
  let ?w1 = "logged (Popen [''node'', ''-v'']) w"
  have cv: "current_version w = (Inr v, ?w1)"
    using current_version_active [of w] assms(1)
    by (auto simp: active_version_def split: option.splits)
  have p1: "get_nodevers_prefix ?w1 = (Inr pfx, ?w1)"
    by (rule prefix_logged [OF assms(2)])
  obtain w2 where switch: "link_to ''system'' ?w1 = (Inr (), w2)"
    and absent: "lstat w2 ?b = None"
    and env: "environ w2 = environ w" "euid w2 = euid w"
    and tr: "trace w2 = trace w @ [Popen [''node'', ''-v''], Path_lexists ?b] @
               (if lstat w ?b = None then [] else [Unlink ?b])"
  proof (cases "lstat w ?b")
    case None
    then show ?thesis
      using link_to_system_result [OF p1] that [of "logged (Path_lexists ?b) ?w1"] by simp
  next
    case (Some n)
    then have n: "n \<noteq> Dir" using assms(3) by simp
    have l1: "lstat ?w1 ?b = Some n" using Some by simp
    let ?w2 = "?w1\<lparr>files := del (names (cwd ?w1) ?b) (files ?w1),
                 trace := trace ?w1 @ [Path_lexists ?b, Unlink ?b]\<rparr>"
    have "link_to ''system'' ?w1 = (Inr (), ?w2)"
      using link_to_system_result [OF p1] l1 n by (cases n) simp_all
    moreover have "lstat ?w2 ?b = None" by (rule lstat_after_unlink [OF l1 n])
    ultimately show ?thesis using that [of ?w2] Some by simp
  qed
  have vd: "get_version_dir v w2 = (Inr ?vd, w2)"
    by (rule dirs_elsewhere(2) [OF assms(2) env])
  have rm: "remove v w = shutil_rmtree ?vd w2"
    by (simp add: remove_def and_then_def cv switch vd)
  have "trace (snd (remove v w)) = trace w2 @ [Rmtree ?vd]"
    unfolding rm by (rule shutil_rmtree_trace)
  then show ?thesis using switch absent rm tr by simp
qed

theorem remove_active_switches_first_witness:
  "fst (remove ''5.10.2'' sample_world) = Inr () \<and>
   trace (snd (remove ''5.10.2'' sample_world)) =
     [Popen [''node'', ''-v''], Path_lexists ''/opt/nodevers/bin'',
      Unlink ''/opt/nodevers/bin'', Rmtree ''/opt/nodevers/versions/5.10.2''] \<and>
   lstat (snd (remove ''5.10.2'' sample_world)) ''/opt/nodevers/bin'' = None \<and>
   lstat (snd (remove ''5.10.2'' sample_world)) ''/opt/nodevers/versions/5.10.2'' = None"
proof -
  have a: "active_version sample_world = Some ''5.10.2''" by code_simp
  have l: "lstat sample_world (os_path_join ''/opt/nodevers'' ''bin'') \<noteq> Some Dir"
    by code_simp
  have l2: "lstat sample_world ''/opt/nodevers/bin'' \<noteq> None" by code_simp
  have t: "trace sample_world = []" by code_simp
  have r: "fst (remove ''5.10.2'' sample_world) = Inr ()" by code_simp
  have g1: "lstat (snd (remove ''5.10.2'' sample_world)) ''/opt/nodevers/bin'' = None"
    by code_simp
  have g2: "lstat (snd (remove ''5.10.2'' sample_world)) ''/opt/nodevers/versions/5.10.2'' = None"
    by code_simp
  show ?thesis
    using remove_active_switches_first [OF a sample_prefix l] l2 t r g1 g2
    by (auto simp: os_path_join_def)
qed

subsection \<open>Activating a version\<close>

lemma del_twice [simp]: "del p (del p t) = del p t"
  by (simp add: del_def)

lemma put_after_del [simp]: "put p n (del p t) = put p n t"
  by (simp add: put_def)

lemma put_twice [simp]: "put p n (put p m t) = put p n t"
  by (simp add: put_def del_def)

lemma follow_visible: "follow t k p \<noteq> None \<Longrightarrow> node_at t p \<noteq> None"
  by (cases k) (auto split: option.splits)

lemma isdir_visible:
  assumes "isdir w s"
  shows "s \<noteq> []" and "node_at (files w) (names (cwd w) s) \<noteq> None"
proof -
  have st: "stat w s \<noteq> None" using assms by (auto simp: isdir_def split: option.splits)
  then show "s \<noteq> []" by (auto simp: stat_def)
  then show "node_at (files w) (names (cwd w) s) \<noteq> None"
    using st follow_visible by (simp add: stat_def)
qed

lemma bin_location:
  "names base (os_path_join pfx ''bin'') = names base pfx @ [''bin'']"
  by (rule names_join_name) simp_all

lemma version_location:
  assumes "valid_version_string v"
  shows "names base (os_path_join (os_path_join pfx ''versions'') v) =
           names base pfx @ [''versions'', v]"
proof -
  have "names base (os_path_join (os_path_join pfx ''versions'') v) =
      names base (os_path_join pfx ''versions'') @ [v]"
    by (rule names_join_name [OF valid_version_string_name [OF assms]])
  moreover have "names base (os_path_join pfx ''versions'') = names base pfx @ [''versions'']"
    by (rule names_join_name) simp_all
  ultimately show ?thesis by simp
qed

lemma installed_prefix_is_directory:
  assumes "valid_version_string v"
    and "isdir w (os_path_join (os_path_join pfx ''versions'') v)"
  shows "node_at (files w) (names (cwd w) pfx) = Some Dir"
proof -
  have "node_at (files w) (names (cwd w) pfx @ [''versions'', v]) \<noteq> None"
    using isdir_visible(2) [OF assms(2)] version_location [OF assms(1)] by simp
  moreover have "strict_prefix (names (cwd w) pfx) (names (cwd w) pfx @ [''versions'', v])"
    by (simp add: strict_prefix_def)
  ultimately show ?thesis by (rule node_at_above)
qed

lemma os_symlink_result:
  assumes "s \<noteq> []" and "lstat w s = None"
    and "node_at (files w) (butlast (names (cwd w) s)) = Some Dir"
  shows "os_symlink target s w =
           (Inr (), w\<lparr>files := put (names (cwd w) s) (Symlink target) (files w),
                      trace := trace w @ [Symlink_to target s]\<rparr>)"
  using assms by (simp add: os_symlink_def logged_def)

lemma link_to_installed:
  assumes "valid_version_string v"
    and "get_nodevers_prefix w = (Inr pfx, w)"
    and "isdir w (os_path_join (os_path_join pfx ''versions'') v)"
    and "lstat w (os_path_join pfx ''bin'') \<noteq> Some Dir"
  shows "link_to v w =
     (Inr (),
      w\<lparr>files := put (names (cwd w) (os_path_join pfx ''bin''))
                    (Symlink (os_path_join (os_path_join (os_path_join pfx ''versions'') v) ''bin''))
                    (files w),
        trace := trace w @
          [Path_isdir (os_path_join (os_path_join pfx ''versions'') v),
           Path_lexists (os_path_join pfx ''bin'')] @
          (if lstat w (os_path_join pfx ''bin'') = None then []
           else [Unlink (os_path_join pfx ''bin'')]) @
          [Symlink_to (os_path_join (os_path_join (os_path_join pfx ''versions'') v) ''bin'')
             (os_path_join pfx ''bin'')]\<rparr>)"
proof -
  let ?b = "os_path_join pfx ''bin''"
  let ?vd = "os_path_join (os_path_join pfx ''versions'') v"
  let ?tg = "os_path_join ?vd ''bin''"
  let ?B = "names (cwd w) ?b"
  have B: "?B = names (cwd w) pfx @ [''bin'']" by (rule bin_location)
  have bne: "?b \<noteq> []" by (simp add: os_path_join_nonempty)
  have P: "node_at (files w) (names (cwd w) pfx) = Some Dir"
    by (rule installed_prefix_is_directory [OF assms(1,3)])
  have ns: "v \<noteq> ''system''" by (rule version_not_option(2) [OF assms(1)])
  let ?w1 = "logged (Path_isdir ?vd) w"
  let ?w2 = "logged (Path_lexists ?b) ?w1"
  have ve: "version_exists v w = (Inr True, ?w1)"
    using version_exists_isdir [OF assms(2), of v] assms(3) by simp
  have b1: "get_bin_dir ?w1 = (Inr ?b, ?w1)"
    by (rule dirs_elsewhere(1) [OF assms(2)]) simp_all
  have b2: "get_bin_dir ?w2 = (Inr ?b, ?w2)"
    by (rule dirs_elsewhere(1) [OF assms(2)]) simp_all
  obtain w3 where un: "(if lstat w ?b \<noteq> None then and_then get_bin_dir os_unlink else ret ()) ?w2
        = (Inr (), w3)"
    and f3: "files w3 = (if lstat w ?b = None then files w else del ?B (files w))"
    and t3: "trace w3 = trace w @ [Path_isdir ?vd, Path_lexists ?b] @
                (if lstat w ?b = None then [] else [Unlink ?b])"
    and e3: "environ w3 = environ w" "euid w3 = euid w" "cwd w3 = cwd w"
    and o3: "stdout w3 = stdout w" "stderr w3 = stderr w" "programs w3 = programs w"
    and w3more: "world.more w3 = world.more w"
  proof (cases "lstat w ?b")
    case None
    then show ?thesis using that [of ?w2] by (simp add: ret_def logged_def)
  next
    case (Some n)
    then have n: "n \<noteq> Dir" using assms(4) by simp
    have "os_unlink ?b ?w2 =
        (Inr (), ?w2\<lparr>files := del (names (cwd ?w2) ?b) (files ?w2),
                      trace := trace ?w2 @ [Unlink ?b]\<rparr>)"
      using Some n by (cases n) (simp_all add: os_unlink_result)
    then show ?thesis
      using Some that [of "?w2\<lparr>files := del (names (cwd ?w2) ?b) (files ?w2),
                      trace := trace ?w2 @ [Unlink ?b]\<rparr>"]
      by (simp add: and_then_def b2)
  qed
  have l3: "lstat w3 ?b = None"
  proof (cases "lstat w ?b")
    case None
    then show ?thesis using f3 e3 by (auto simp: lstat_def split: if_splits)
  next
    case (Some n)
    then show ?thesis using f3 e3 B bne by (simp add: lstat_def node_at_del)
  qed
  have P3: "node_at (files w3) (butlast (names (cwd w3) ?b)) = Some Dir"
    using f3 e3 B P by (simp add: node_at_del)
  have vd3: "get_version_dir v w3 = (Inr ?vd, w3)"
    by (rule dirs_elsewhere(2) [OF assms(2) e3(1,2)])
  have b3: "get_bin_dir w3 = (Inr ?b, w3)"
    by (rule dirs_elsewhere(1) [OF assms(2) e3(1,2)])
  have sy: "os_symlink ?tg ?b w3 =
      (Inr (), w3\<lparr>files := put (names (cwd w3) ?b) (Symlink ?tg) (files w3),
                  trace := trace w3 @ [Symlink_to ?tg ?b]\<rparr>)"
    by (rule os_symlink_result [OF bne l3 P3])
  have "link_to v w =
      (Inr (), w3\<lparr>files := put (names (cwd w3) ?b) (Symlink ?tg) (files w3),
                  trace := trace w3 @ [Symlink_to ?tg ?b]\<rparr>)"
    using ns ve b1 un vd3 b3 sy
    by (simp add: link_to_def and_then_def os_path_lexists_def)
  also have "w3\<lparr>files := put (names (cwd w3) ?b) (Symlink ?tg) (files w3),
                  trace := trace w3 @ [Symlink_to ?tg ?b]\<rparr> =
      w\<lparr>files := put ?B (Symlink ?tg) (files w),
        trace := trace w @ [Path_isdir ?vd, Path_lexists ?b] @
          (if lstat w ?b = None then [] else [Unlink ?b]) @ [Symlink_to ?tg ?b]\<rparr>"
    using f3 t3 e3 o3 w3more by (cases w3; cases w) auto
  finally show ?thesis .
qed


lemma link_to_installed_link:
  assumes "valid_version_string v"
    and "get_nodevers_prefix w = (Inr pfx, w)"
    and "isdir w (os_path_join (os_path_join pfx ''versions'') v)"
    and "lstat w (os_path_join pfx ''bin'') \<noteq> Some Dir"
  shows "lstat (snd (link_to v w)) (os_path_join pfx ''bin'') =
           Some (Symlink (os_path_join (os_path_join (os_path_join pfx ''versions'') v) ''bin''))"
proof -
  have B: "names (cwd w) (os_path_join pfx ''bin'') = names (cwd w) pfx @ [''bin'']"
    by (rule bin_location)
  have P: "node_at (files w) (names (cwd w) pfx) = Some Dir"
    by (rule installed_prefix_is_directory [OF assms(1,3)])
  show ?thesis
    unfolding link_to_installed [OF assms]
    using B P by (simp add: lstat_def os_path_join_nonempty node_at_put)
qed

text \<open>
  Claim C5: for an installed version, \<open>link_to\<close> first removes the Active Link if there
  is one and then creates the symbolic link from \<open><prefix>/bin\<close> to
  \<open><versions>/<v>/bin\<close>, the removal coming before the creation; so after activating
  \<open>v1\<close> and then \<open>v2\<close> the one entry at \<open><prefix>/bin\<close> is the link to the \<open>bin\<close>
  directory of \<open>v2\<close>. The prefix is taken to be known, the path of the Active Link not
  to be occupied by a directory, and \<open>v2\<close> to be installed when it is activated.
\<close>

theorem activate_replaces_link:
  assumes "valid_version_string v1" and "valid_version_string v2"
    and "get_nodevers_prefix w = (Inr pfx, w)"
    and "lstat w (os_path_join pfx ''bin'') \<noteq> Some Dir"
    and "isdir w (os_path_join (os_path_join pfx ''versions'') v1)"
    and "isdir (snd (link_to v1 w)) (os_path_join (os_path_join pfx ''versions'') v2)"
  shows "fst (link_to v1 w) = Inr () \<and>
         trace (snd (link_to v1 w)) =
           trace w @
           [Path_isdir (os_path_join (os_path_join pfx ''versions'') v1),
            Path_lexists (os_path_join pfx ''bin'')] @
           (if lstat w (os_path_join pfx ''bin'') = None then []
            else [Unlink (os_path_join pfx ''bin'')]) @
           [Symlink_to (os_path_join (os_path_join (os_path_join pfx ''versions'') v1) ''bin'')
              (os_path_join pfx ''bin'')] \<and>
         lstat (snd (link_to v1 w)) (os_path_join pfx ''bin'') =
           Some (Symlink (os_path_join (os_path_join (os_path_join pfx ''versions'') v1) ''bin'')) \<and>
         fst (link_to v2 (snd (link_to v1 w))) = Inr () \<and>
         trace (snd (link_to v2 (snd (link_to v1 w)))) =
           trace (snd (link_to v1 w)) @
           [Path_isdir (os_path_join (os_path_join pfx ''versions'') v2),
            Path_lexists (os_path_join pfx ''bin''),
            Unlink (os_path_join pfx ''bin''),
            Symlink_to (os_path_join (os_path_join (os_path_join pfx ''versions'') v2) ''bin'')
              (os_path_join pfx ''bin'')] \<and>
         lstat (snd (link_to v2 (snd (link_to v1 w)))) (os_path_join pfx ''bin'') =
           Some (Symlink (os_path_join (os_path_join (os_path_join pfx ''versions'') v2) ''bin'')) \<and>
         files (snd (link_to v2 (snd (link_to v1 w)))) =
           put (names (cwd w) (os_path_join pfx ''bin''))
             (Symlink (os_path_join (os_path_join (os_path_join pfx ''versions'') v2) ''bin''))
             (files w)"
proof -
  let ?b = "os_path_join pfx ''bin''"
  let ?w1 = "snd (link_to v1 w)"
  note first = link_to_installed [OF assms(1,3,5,4)]
  have l1: "lstat ?w1 ?b =
      Some (Symlink (os_path_join (os_path_join (os_path_join pfx ''versions'') v1) ''bin''))"
    by (rule link_to_installed_link [OF assms(1,3,5,4)])
  then have nd: "lstat ?w1 ?b \<noteq> Some Dir" and ex: "lstat ?w1 ?b \<noteq> None" by simp_all
  have p1: "get_nodevers_prefix ?w1 = (Inr pfx, ?w1)"
    by (rule prefix_elsewhere [OF assms(3)]) (simp_all add: first)
  note second = link_to_installed [OF assms(2) p1 assms(6) nd]
  have l2: "lstat (snd (link_to v2 ?w1)) ?b =
      Some (Symlink (os_path_join (os_path_join (os_path_join pfx ''versions'') v2) ''bin''))"
    by (rule link_to_installed_link [OF assms(2) p1 assms(6) nd])
  have c1: "cwd ?w1 = cwd w" and f1: "files ?w1 =
      put (names (cwd w) ?b)
        (Symlink (os_path_join (os_path_join (os_path_join pfx ''versions'') v1) ''bin''))
        (files w)"
    by (simp_all add: first)
  have a: "fst (link_to v1 w) = Inr ()" by (simp add: first)
  have b: "trace ?w1 = trace w @
           [Path_isdir (os_path_join (os_path_join pfx ''versions'') v1), Path_lexists ?b] @
           (if lstat w ?b = None then [] else [Unlink ?b]) @
           [Symlink_to (os_path_join (os_path_join (os_path_join pfx ''versions'') v1) ''bin'') ?b]"
    by (simp add: first)
  have d: "fst (link_to v2 ?w1) = Inr ()" by (simp add: second)
  have e: "trace (snd (link_to v2 ?w1)) = trace ?w1 @
           [Path_isdir (os_path_join (os_path_join pfx ''versions'') v2), Path_lexists ?b,
            Unlink ?b,
            Symlink_to (os_path_join (os_path_join (os_path_join pfx ''versions'') v2) ''bin'') ?b]"
    using ex by (simp add: second)
  have g: "files (snd (link_to v2 ?w1)) =
      put (names (cwd w) ?b)
        (Symlink (os_path_join (os_path_join (os_path_join pfx ''versions'') v2) ''bin''))
        (files w)"
    by (simp add: second c1 f1)
  show ?thesis using a b l1 d e l2 g by blast
qed

theorem activate_replaces_link_witness:
  "fst (link_to ''5.10.2'' (snd (link_to ''4.0.0'' sample_world))) = Inr () \<and>
   trace (snd (link_to ''4.0.0'' sample_world)) =
     [Path_isdir ''/opt/nodevers/versions/4.0.0'', Path_lexists ''/opt/nodevers/bin'',
      Unlink ''/opt/nodevers/bin'',
      Symlink_to ''/opt/nodevers/versions/4.0.0/bin'' ''/opt/nodevers/bin''] \<and>
   lstat (snd (link_to ''5.10.2'' (snd (link_to ''4.0.0'' sample_world)))) ''/opt/nodevers/bin'' =
     Some (Symlink ''/opt/nodevers/versions/5.10.2/bin'')"
proof -
  have v1: "valid_version_string ''4.0.0''" by code_simp
  have v2: "valid_version_string ''5.10.2''" by code_simp
  have l: "lstat sample_world (os_path_join ''/opt/nodevers'' ''bin'') \<noteq> Some Dir"
    by code_simp
  have l2: "lstat sample_world ''/opt/nodevers/bin'' \<noteq> None" by code_simp
  have d1: "isdir sample_world (os_path_join (os_path_join ''/opt/nodevers'' ''versions'') ''4.0.0'')"
    by code_simp
  have d2: "isdir (snd (link_to ''4.0.0'' sample_world))
      (os_path_join (os_path_join ''/opt/nodevers'' ''versions'') ''5.10.2'')"
    by code_simp
  have t: "trace sample_world = []" by code_simp
  show ?thesis
    using activate_replaces_link [OF v1 v2 sample_prefix l d1 d2] l2 t
    by (simp add: os_path_join_def)
qed

subsection \<open>Making directories\<close>

lemma mkdir_at_success:
  assumes "mkdir_at t p = (Inr u, t')"
  shows "node_at t p = None" and "p \<noteq> []"
    and "node_at t' q = (if q = p then Some Dir else node_at t q)"
proof -
  have none: "node_at t p = None" and par: "node_at t (butlast p) = Some Dir"
    and t': "t' = put p Dir t"
    using assms by (auto simp: mkdir_at_def split: if_splits option.splits node.splits)
  show "node_at t p = None" by (rule none)
  show ne: "p \<noteq> []" using none by auto
  have "strict_prefix p q \<Longrightarrow> node_at t q = None"
    using none nothing_below_non_directory [of t p q] by simp
  then show "node_at t' q = (if q = p then Some Dir else node_at t q)"
    unfolding t' node_at_put [OF ne par] by (auto simp: strict_prefix_def)
qed

lemma mkdir_at_failure: "mkdir_at t p = (Inl e, t') \<Longrightarrow> t' = t"
  by (auto simp: mkdir_at_def split: if_splits option.splits node.splits)

lemma mkdir_at_grows:
  assumes "mkdir_at t p = (r, t')"
  shows "node_at t' q = node_at t q \<or>
         (node_at t q = None \<and> node_at t' q = Some Dir \<and> prefix q p)"
proof (cases r)
  case (Inl e)
  then show ?thesis using assms mkdir_at_failure by blast
next
  case (Inr u)
  then show ?thesis
    using mkdir_at_success(1) [of t p u t'] mkdir_at_success(3) [of t p u t' q] assms by auto
qed

lemma makedirs_at_grows:
  "makedirs_at t p = (r, t') \<Longrightarrow>
   node_at t' q = node_at t q \<or>
   (node_at t q = None \<and> node_at t' q = Some Dir \<and> prefix q p)"
proof (induction t p arbitrary: r t' rule: makedirs_at.induct)
  case (1 t p)
  show ?case
  proof (cases "p \<noteq> [] \<and> butlast p \<noteq> [] \<and> follow t 40 (butlast p) = None")
    case False
    then have "mkdir_at t p = (r, t')" using "1.prems" by (subst (asm) makedirs_at.simps) auto
    then show ?thesis by (rule mkdir_at_grows)
  next
    case True
    obtain r1 t1 where inner: "makedirs_at t (butlast p) = (r1, t1)"
      by (cases "makedirs_at t (butlast p)")
    have g1: "node_at t1 q = node_at t q \<or>
        (node_at t q = None \<and> node_at t1 q = Some Dir \<and> prefix q (butlast p))"
      by (rule "1.IH" [OF True inner])
    have up: "prefix q (butlast p) \<Longrightarrow> prefix q p"
      by (meson prefix_order.trans prefixeq_butlast)
    show ?thesis
    proof (cases "r1 = Inl EEXIST \<or> (\<exists>u. r1 = Inr u)")
      case True
      then have "mkdir_at t1 p = (r, t')"
        using "1.prems" \<open>p \<noteq> [] \<and> butlast p \<noteq> [] \<and> follow t 40 (butlast p) = None\<close> inner
        by (subst (asm) makedirs_at.simps) auto
      then have "node_at t' q = node_at t1 q \<or>
          (node_at t1 q = None \<and> node_at t' q = Some Dir \<and> prefix q p)"
        by (rule mkdir_at_grows)
      then show ?thesis using g1 up by auto
    next
      case False
      then obtain e where e: "r1 = Inl e" "e \<noteq> EEXIST" by (cases r1) auto
      then have "t' = t1"
        using "1.prems" \<open>p \<noteq> [] \<and> butlast p \<noteq> [] \<and> follow t 40 (butlast p) = None\<close> inner
        by (subst (asm) makedirs_at.simps) auto
      then show ?thesis using g1 up by auto
    qed
  qed
qed

lemma makedirs_at_ends_with_mkdir:
  assumes "makedirs_at t p = (Inr u, t')"
  shows "\<exists>t1. mkdir_at t1 p = (Inr u, t') \<and>
           (\<forall>q. node_at t1 q = node_at t q \<or>
                (node_at t q = None \<and> node_at t1 q = Some Dir \<and> prefix q p))"
proof (cases "p \<noteq> [] \<and> butlast p \<noteq> [] \<and> follow t 40 (butlast p) = None")
  case False
  then have "mkdir_at t p = (Inr u, t')" using assms by (subst (asm) makedirs_at.simps) auto
  then show ?thesis by blast
next
  case True
  obtain r1 t1 where inner: "makedirs_at t (butlast p) = (r1, t1)"
    by (cases "makedirs_at t (butlast p)")
  have up: "\<And>q. prefix q (butlast p) \<Longrightarrow> prefix q p"
    by (meson prefix_order.trans prefixeq_butlast)
  have g1: "\<forall>q. node_at t1 q = node_at t q \<or>
      (node_at t q = None \<and> node_at t1 q = Some Dir \<and> prefix q p)"
    using makedirs_at_grows [OF inner] up by blast
  have "mkdir_at t1 p = (Inr u, t')"
    using assms True inner
    by (subst (asm) makedirs_at.simps) (auto split: sum.splits if_splits)
  then show ?thesis using g1 by blast
qed

lemma makedirs_at_success:
  assumes "makedirs_at t p = (Inr u, t')"
  shows "node_at t p = None"
    and "node_at t' q = (if prefix q p \<and> node_at t q = None then Some Dir else node_at t q)"
proof -
  obtain t1 where mk: "mkdir_at t1 p = (Inr u, t')"
    and g1: "\<forall>q. node_at t1 q = node_at t q \<or>
                (node_at t q = None \<and> node_at t1 q = Some Dir \<and> prefix q p)"
    using makedirs_at_ends_with_mkdir [OF assms] by blast
  have n1: "node_at t1 p = None" by (rule mkdir_at_success(1) [OF mk])
  show none: "node_at t p = None" using g1 n1 by (metis option.distinct(1))
  have made: "node_at t' p = Some Dir" using mkdir_at_success(3) [OF mk, of p] by simp
  have grows: "node_at t' q = node_at t q \<or>
      (node_at t q = None \<and> node_at t' q = Some Dir \<and> prefix q p)"
    by (rule makedirs_at_grows [OF assms])
  show "node_at t' q = (if prefix q p \<and> node_at t q = None then Some Dir else node_at t q)"
  proof (cases "prefix q p \<and> node_at t q = None")
    case False
    then show ?thesis using grows by auto
  next
    case True
    have "node_at t' q = Some Dir"
    proof (cases "q = p")
      case True
      then show ?thesis using made by simp
    next
      case False
      then have "strict_prefix q p" using True by (simp add: strict_prefix_def)
      then show ?thesis using made node_at_above [of t' p q] by simp
    qed
    then show ?thesis using True by simp
  qed
qed

subsection \<open>Initialising the prefix\<close>

lemma and_then_success:
  assumes "and_then m f w = (Inr y, w')"
  shows "\<exists>x w1. m w = (Inr x, w1) \<and> f x w1 = (Inr y, w')"
  using assms by (auto simp: and_then_def split: prod.splits sum.splits)

lemma os_makedirs_success:
  assumes "os_makedirs s w = (Inr u, w')"
  shows "s \<noteq> []" and "makedirs_at (files w) (names (cwd w) s) = (Inr (), files w')"
    and "cwd w' = cwd w" and "trace w' = trace w @ [Makedirs s]"
proof -
  show ne: "s \<noteq> []" using assms by (auto simp: os_makedirs_def)
  obtain r t where m: "makedirs_at (files w) (names (cwd w) s) = (r, t)"
    by (cases "makedirs_at (files w) (names (cwd w) s)")
  show "makedirs_at (files w) (names (cwd w) s) = (Inr (), files w')"
    and "cwd w' = cwd w" and "trace w' = trace w @ [Makedirs s]"
    using assms ne m by (cases r; auto simp: os_makedirs_def logged_def)+
qed

lemma shutil_rmtree_success:
  assumes "shutil_rmtree s w = (Inr u, w')"
  shows "lstat w s = Some Dir" and "names (cwd w) s \<noteq> []"
    and "files w' = del (names (cwd w) s) (files w)"
    and "cwd w' = cwd w" and "trace w' = trace w @ [Rmtree s]"
  using assms
  by (auto simp: shutil_rmtree_def logged_def split: if_splits option.splits node.splits)

lemma follow_directory: "node_at t p = Some Dir \<Longrightarrow> follow t k p = Some (p, Dir)"
  by (cases k) simp_all

lemma isdir_directory:
  "s \<noteq> [] \<Longrightarrow> node_at (files w) (names (cwd w) s) = Some Dir \<Longrightarrow> isdir w s"
  by (simp add: isdir_def stat_def follow_directory)

lemma layout_locations:
  "names base (os_path_join path ''versions'') = names base path @ [''versions'']"
  "names base (os_path_join path ''tmp'') = names base path @ [''tmp'']"
  "names base (os_path_join path ''patches'') = names base path @ [''patches'']"
  "names base (os_path_join path (os_path_join ''patches'' ''global'')) =
     names base path @ [''patches'', ''global'']"
proof -
  show "names base (os_path_join path ''versions'') = names base path @ [''versions'']"
    by (rule names_join_name) simp_all
  show "names base (os_path_join path ''tmp'') = names base path @ [''tmp'']"
    by (rule names_join_name) simp_all
  show "names base (os_path_join path ''patches'') = names base path @ [''patches'']"
    by (rule names_join_name) simp_all
  have j: "os_path_join ''patches'' ''global'' = ''patches/global''"
    by (simp add: os_path_join_def)
  have "take 1 ''patches/global'' \<noteq> ''/''" by simp
  then have "names base (os_path_join path ''patches/global'') =
      foldl norm_step (names base path) (split_on CHR ''/'' ''patches/global'')"
    by (rule names_join)
  then show "names base (os_path_join path (os_path_join ''patches'' ''global'')) =
     names base path @ [''patches'', ''global'']"
    unfolding j by (simp add: norm_step_def)
qed

lemma strict_prefix_snoc_iff: "strict_prefix q (p @ [x]) = prefix q p"
  by (auto simp: strict_prefix_def dest: prefix_length_le)

lemma makedirs_at_one_more:
  assumes "makedirs_at t p = (Inr u, t')"
    and "\<And>r. strict_prefix r p \<Longrightarrow> node_at t r \<noteq> None"
  shows "node_at t' q = (if q = p then Some Dir else node_at t q)"
proof -
  have eq: "node_at t' q =
      (if prefix q p \<and> node_at t q = None then Some Dir else node_at t q)"
    by (rule makedirs_at_success(2) [OF assms(1)])
  have none: "node_at t p = None" by (rule makedirs_at_success(1) [OF assms(1)])
  show ?thesis
  proof (cases "q = p")
    case True
    then show ?thesis using eq none by simp
  next
    case False
    have "\<not> (prefix q p \<and> node_at t q = None)"
      using False assms(2) [of q] by (auto simp: strict_prefix_def)
    then show ?thesis using eq False by simp
  qed
qed

lemma makedirs_all_steps:
  assumes "makedirs_all path [a, b, c, d] w1 = (Inr u, w')"
  shows "\<exists>w2 w3 w4 u2 u3 u4.
           os_makedirs (os_path_join path a) w1 = (Inr u2, w2) \<and>
           os_makedirs (os_path_join path b) w2 = (Inr u3, w3) \<and>
           os_makedirs (os_path_join path c) w3 = (Inr u4, w4) \<and>
           os_makedirs (os_path_join path d) w4 = (Inr u, w')"
proof -
  obtain u2 w2 where m1: "os_makedirs (os_path_join path a) w1 = (Inr u2, w2)"
    and r1: "makedirs_all path [b, c, d] w2 = (Inr u, w')"
    using and_then_success [of "os_makedirs (os_path_join path a)"
        "\<lambda>u. makedirs_all path [b, c, d]" w1 u w'] assms by auto
  obtain u3 w3 where m2: "os_makedirs (os_path_join path b) w2 = (Inr u3, w3)"
    and r2: "makedirs_all path [c, d] w3 = (Inr u, w')"
    using and_then_success [of "os_makedirs (os_path_join path b)"
        "\<lambda>u. makedirs_all path [c, d]" w2 u w'] r1 by auto
  obtain u4 w4 where m3: "os_makedirs (os_path_join path c) w3 = (Inr u4, w4)"
    and r3: "makedirs_all path [d] w4 = (Inr u, w')"
    using and_then_success [of "os_makedirs (os_path_join path c)"
        "\<lambda>u. makedirs_all path [d]" w3 u w'] r2 by auto
  obtain u5 w5 where m4: "os_makedirs (os_path_join path d) w4 = (Inr u5, w5)"
    and r4: "makedirs_all path [] w5 = (Inr u, w')"
    using and_then_success [of "os_makedirs (os_path_join path d)"
        "\<lambda>u. makedirs_all path []" w4 u w'] r3 by auto
  have "w5 = w'" using r4 by (simp add: ret_def)
  then show ?thesis using m1 m2 m3 m4 by auto
qed

lemma layout_made:
  assumes "makedirs_all path layout_dirs w1 = (Inr u, w')"
  shows "cwd w' = cwd w1"
    and "trace w' = trace w1 @
           [Makedirs (os_path_join path ''versions''), Makedirs (os_path_join path ''tmp''),
            Makedirs (os_path_join path ''patches''),
            Makedirs (os_path_join path (os_path_join ''patches'' ''global''))]"
    and "node_at (files w') q =
           (if q \<in> {names (cwd w1) path @ [''versions''], names (cwd w1) path @ [''tmp''],
                     names (cwd w1) path @ [''patches''],
                     names (cwd w1) path @ [''patches'', ''global'']} \<or>
               prefix q (names (cwd w1) path)
            then Some Dir else node_at (files w1) q)"
proof -
  define P where "P = names (cwd w1) path"
  obtain w2 w3 w4 u2 u3 u4 where
    m1: "os_makedirs (os_path_join path ''versions'') w1 = (Inr u2, w2)" and
    m2: "os_makedirs (os_path_join path ''tmp'') w2 = (Inr u3, w3)" and
    m3: "os_makedirs (os_path_join path ''patches'') w3 = (Inr u4, w4)" and
    m4: "os_makedirs (os_path_join path (os_path_join ''patches'' ''global'')) w4 = (Inr u, w')"
    using makedirs_all_steps [OF assms [unfolded layout_dirs_def]] by blast
  note s1 = os_makedirs_success [OF m1] and s2 = os_makedirs_success [OF m2]
    and s3 = os_makedirs_success [OF m3] and s4 = os_makedirs_success [OF m4]
  have c2: "cwd w2 = cwd w1" and c3: "cwd w3 = cwd w1" and c4: "cwd w4 = cwd w1"
    using s1(3) s2(3) s3(3) by simp_all
  show "cwd w' = cwd w1" using s4(3) c4 by simp
  show "trace w' = trace w1 @
           [Makedirs (os_path_join path ''versions''), Makedirs (os_path_join path ''tmp''),
            Makedirs (os_path_join path ''patches''),
            Makedirs (os_path_join path (os_path_join ''patches'' ''global''))]"
    using s1(4) s2(4) s3(4) s4(4) by simp
  have k1: "makedirs_at (files w1) (P @ [''versions'']) = (Inr (), files w2)"
    using s1(2) by (simp add: layout_locations P_def)
  have k2: "makedirs_at (files w2) (P @ [''tmp'']) = (Inr (), files w3)"
    using s2(2) by (simp add: layout_locations c2 P_def)
  have k3: "makedirs_at (files w3) (P @ [''patches'']) = (Inr (), files w4)"
    using s3(2) by (simp add: layout_locations c3 P_def)
  have k4: "makedirs_at (files w4) ((P @ [''patches'']) @ [''global'']) = (Inr (), files w')"
    using s4(2) by (simp add: layout_locations c4 P_def)
  have e2: "\<And>r. node_at (files w2) r =
      (if prefix r (P @ [''versions'']) \<and> node_at (files w1) r = None then Some Dir
       else node_at (files w1) r)"
    by (rule makedirs_at_success(2) [OF k1])
  have made2: "node_at (files w2) (P @ [''versions'']) = Some Dir"
    using e2 [of "P @ [''versions'']"] makedirs_at_success(1) [OF k1] by simp
  have above2: "\<And>r. prefix r P \<Longrightarrow> node_at (files w2) r = Some Dir"
  proof -
    fix r assume "prefix r P"
    then have "strict_prefix r (P @ [''versions''])" by (simp add: strict_prefix_snoc_iff)
    then show "node_at (files w2) r = Some Dir"
      using made2 node_at_above [of "files w2" "P @ [''versions'']" r] by simp
  qed
  have e3: "\<And>r. node_at (files w3) r =
      (if r = P @ [''tmp''] then Some Dir else node_at (files w2) r)"
    by (rule makedirs_at_one_more [OF k2]) (simp add: strict_prefix_snoc_iff above2)
  have e4: "\<And>r. node_at (files w4) r =
      (if r = P @ [''patches''] then Some Dir else node_at (files w3) r)"
    by (rule makedirs_at_one_more [OF k3]) (simp add: strict_prefix_snoc_iff above2 e3)
  have e5: "\<And>r. node_at (files w') r =
      (if r = (P @ [''patches'']) @ [''global''] then Some Dir else node_at (files w4) r)"
  proof (rule makedirs_at_one_more [OF k4])
    fix r assume "strict_prefix r ((P @ [''patches'']) @ [''global''])"
    then have "r = P @ [''patches''] \<or> prefix r P"
      unfolding strict_prefix_snoc_iff by simp
    then show "node_at (files w4) r \<noteq> None"
      using e4 [of r] e3 [of r] above2 [of r] by auto
  qed
  show "node_at (files w') q =
           (if q \<in> {names (cwd w1) path @ [''versions''], names (cwd w1) path @ [''tmp''],
                     names (cwd w1) path @ [''patches''],
                     names (cwd w1) path @ [''patches'', ''global'']} \<or>
               prefix q (names (cwd w1) path)
            then Some Dir else node_at (files w1) q)"
  proof (cases "prefix q P")
    case True
    then have "node_at (files w2) q = Some Dir" by (rule above2)
    then have "node_at (files w') q = Some Dir"
      unfolding e5 [of q] e4 [of q] e3 [of q] by simp
    then show ?thesis using True unfolding P_def by simp
  next
    case False
    have "node_at (files w2) q =
        (if q = P @ [''versions''] then Some Dir else node_at (files w1) q)"
      using e2 [of q] False makedirs_at_success(1) [OF k1] made2 by auto
    then have "node_at (files w') q =
        (if q \<in> {P @ [''versions''], P @ [''tmp''], P @ [''patches''],
                  P @ [''patches'', ''global'']}
         then Some Dir else node_at (files w1) q)"
      using made2 unfolding e5 [of q] e4 [of q] e3 [of q] by auto
    then show ?thesis using False unfolding P_def by simp
  qed
qed

lemma all_isdir_true:
  "(\<And>i. i \<in> set dirs \<Longrightarrow> isdir w (os_path_join path i)) \<Longrightarrow>
     fst (all_isdir path dirs w) = Inr True"
proof (induction dirs arbitrary: w)
  case Nil
  show ?case by (simp add: ret_def)
next
  case (Cons i dirs)
  have here: "isdir w (os_path_join path i)" using Cons.prems [of i] by simp
  have rest: "fst (all_isdir path dirs (logged (Path_isdir (os_path_join path i)) w)) = Inr True"
    by (rule Cons.IH) (simp add: Cons.prems)
  show ?case using here rest by (simp add: and_then_def os_path_isdir_def)
qed

lemma layout_valid:
  assumes "node_at (files w) (names (cwd w) path @ [''versions'']) = Some Dir"
    and "node_at (files w) (names (cwd w) path @ [''tmp'']) = Some Dir"
    and "node_at (files w) (names (cwd w) path @ [''patches'']) = Some Dir"
    and "node_at (files w) (names (cwd w) path @ [''patches'', ''global'']) = Some Dir"
  shows "fst (valid_nodevers_prefix path w) = Inr True"
  unfolding valid_nodevers_prefix_def
proof (rule all_isdir_true)
  fix i assume "i \<in> set layout_dirs"
  then consider "i = ''versions''" | "i = ''tmp''" | "i = ''patches''"
    | "i = os_path_join ''patches'' ''global''"
    by (auto simp: layout_dirs_def)
  then show "isdir w (os_path_join path i)"
  proof cases
    case 1
    show ?thesis unfolding 1
      by (rule isdir_directory) (simp_all add: os_path_join_nonempty layout_locations assms)
  next
    case 2
    show ?thesis unfolding 2
      by (rule isdir_directory) (simp_all add: os_path_join_nonempty layout_locations assms)
  next
    case 3
    show ?thesis unfolding 3
      by (rule isdir_directory) (simp_all add: os_path_join_nonempty layout_locations assms)
  next
    case 4
    have ne: "os_path_join ''patches'' ''global'' \<noteq> []" by (simp add: os_path_join_def)
    show ?thesis unfolding 4
      by (rule isdir_directory)
        (simp_all add: os_path_join_nonempty [OF ne] layout_locations assms)
  qed
qed

lemma mknodevers_prefix_steps:
  assumes "mknodevers_prefix path w = (Inr u, w')"
  shows "\<exists>w1. makedirs_all path layout_dirs w1 = (Inr u, w') \<and> cwd w1 = cwd w \<and>
           trace w1 = trace w @ [Path_exists path] @
                        (if stat w path \<noteq> None then [Rmtree path] else []) \<and>
           (\<forall>q. node_at (files w1) q =
                  (if stat w path \<noteq> None \<and> prefix (names (cwd w) path) q then None
                   else node_at (files w) q))"
proof -
  define w0 where "w0 = logged (Path_exists path) w"
  have a: "and_then (if stat w path \<noteq> None then shutil_rmtree path else ret ())
          (\<lambda>u. makedirs_all path layout_dirs) w0 = (Inr u, w')"
    using assms by (simp add: mknodevers_prefix_def and_then_def os_path_exists_def w0_def)
  obtain x w1 where
    d: "(if stat w path \<noteq> None then shutil_rmtree path else ret ()) w0 = (Inr x, w1)"
    and m: "makedirs_all path layout_dirs w1 = (Inr u, w')"
    using and_then_success [OF a] by auto
  show ?thesis
  proof (cases "stat w path \<noteq> None")
    case True
    then have r: "shutil_rmtree path w0 = (Inr x, w1)" using d by simp
    note f = shutil_rmtree_success [OF r]
    have ne: "names (cwd w) path \<noteq> []" using f(2) by (simp add: w0_def)
    have "\<forall>q. node_at (files w1) q =
        (if prefix (names (cwd w) path) q then None else node_at (files w) q)"
      using f(3) node_at_del [OF ne] by (simp add: w0_def)
    then show ?thesis using m f(4,5) True by (auto simp: w0_def)
  next
    case False
    then have "w1 = w0" using d by (simp add: ret_def)
    then show ?thesis using m False by (auto simp: w0_def)
  qed
qed

text \<open>
  \<open>mknodevers_prefix\<close> asks whether the prefix exists, removes it with \<open>shutil.rmtree\<close>
  when it does, and only then makes \<open>versions\<close>, \<open>tmp\<close>, \<open>patches\<close> and \<open>patches/global\<close>
  under it, in this order. Whenever it completes, on a path string without \<open>.\<close> and \<open>..\<close>
  components, everything that was below an existing prefix is gone, the four
  directories and the directories leading to the prefix are there, nothing else in the
  file system has changed, and \<open>valid_nodevers_prefix\<close> of the prefix answers true.
\<close>

lemma initialize_makes_valid_layout:
  assumes completes: "mknodevers_prefix path w = (Inr u, w')"
    and "''.'' \<notin> set (split_on CHR ''/'' path)"
    and "''..'' \<notin> set (split_on CHR ''/'' path)"
  shows "trace w' = trace w @ [Path_exists path] @
                      (if stat w path \<noteq> None then [Rmtree path] else []) @
                      [Makedirs (os_path_join path ''versions''),
                       Makedirs (os_path_join path ''tmp''),
                       Makedirs (os_path_join path ''patches''),
                       Makedirs (os_path_join path (os_path_join ''patches'' ''global''))] \<and>
         (\<forall>q. node_at (files w') q =
                (if q \<in> {names (cwd w) path @ [''versions''], names (cwd w) path @ [''tmp''],
                          names (cwd w) path @ [''patches''],
                          names (cwd w) path @ [''patches'', ''global'']} \<or>
                    prefix q (names (cwd w) path)
                 then Some Dir
                 else if stat w path \<noteq> None \<and> prefix (names (cwd w) path) q then None
                 else node_at (files w) q)) \<and>
         fst (valid_nodevers_prefix path w') = Inr True"
proof -
  obtain w1 where m: "makedirs_all path layout_dirs w1 = (Inr u, w')"
    and c: "cwd w1 = cwd w"
    and t: "trace w1 = trace w @ [Path_exists path] @
                        (if stat w path \<noteq> None then [Rmtree path] else [])"
    and n: "\<And>q. node_at (files w1) q =
                  (if stat w path \<noteq> None \<and> prefix (names (cwd w) path) q then None
                   else node_at (files w) q)"
    using mknodevers_prefix_steps [OF completes] by blast
  note l = layout_made [OF m]
  have made: "\<And>q. node_at (files w') q =
                (if q \<in> {names (cwd w) path @ [''versions''], names (cwd w) path @ [''tmp''],
                          names (cwd w) path @ [''patches''],
                          names (cwd w) path @ [''patches'', ''global'']} \<or>
                    prefix q (names (cwd w) path)
                 then Some Dir
                 else if stat w path \<noteq> None \<and> prefix (names (cwd w) path) q then None
                 else node_at (files w) q)"
    unfolding l(3) c n by (rule refl)
  have c': "cwd w' = cwd w" using l(1) c by simp
  have "fst (valid_nodevers_prefix path w') = Inr True"
    by (rule layout_valid) (simp_all add: c' made)
  moreover have "trace w' = trace w @ [Path_exists path] @
                      (if stat w path \<noteq> None then [Rmtree path] else []) @
                      [Makedirs (os_path_join path ''versions''),
                       Makedirs (os_path_join path ''tmp''),
                       Makedirs (os_path_join path ''patches''),
                       Makedirs (os_path_join path (os_path_join ''patches'' ''global''))]"
    using l(2) t by simp
  ultimately show ?thesis using made by blast
qed

lemma initialize_makes_valid_layout_sample:
  "fst (mknodevers_prefix ''/opt/nodevers'' sample_world) = Inr () \<and>
   trace (snd (mknodevers_prefix ''/opt/nodevers'' sample_world)) =
     [Path_exists ''/opt/nodevers'', Rmtree ''/opt/nodevers'',
      Makedirs ''/opt/nodevers/versions'', Makedirs ''/opt/nodevers/tmp'',
      Makedirs ''/opt/nodevers/patches'', Makedirs ''/opt/nodevers/patches/global''] \<and>
   node_at (files (snd (mknodevers_prefix ''/opt/nodevers'' sample_world)))
     [''opt'', ''nodevers'', ''versions'', ''5.10.2''] = None \<and>
   node_at (files (snd (mknodevers_prefix ''/opt/nodevers'' sample_world)))
     [''opt'', ''nodevers'', ''patches'', ''global''] = Some Dir \<and>
   fst (valid_nodevers_prefix ''/opt/nodevers''
          (snd (mknodevers_prefix ''/opt/nodevers'' sample_world))) = Inr True \<and>
   fst (mknodevers_prefix ''/srv/nv'' sample_world) = Inr () \<and>
   trace (snd (mknodevers_prefix ''/srv/nv'' sample_world)) =
     [Path_exists ''/srv/nv'',
      Makedirs ''/srv/nv/versions'', Makedirs ''/srv/nv/tmp'',
      Makedirs ''/srv/nv/patches'', Makedirs ''/srv/nv/patches/global''] \<and>
   node_at (files (snd (mknodevers_prefix ''/srv/nv'' sample_world))) [''srv''] = Some Dir \<and>
   node_at (files (snd (mknodevers_prefix ''/srv/nv'' sample_world)))
     [''opt'', ''nodevers'', ''versions'', ''5.10.2''] = Some Dir \<and>
   fst (valid_nodevers_prefix ''/srv/nv''
          (snd (mknodevers_prefix ''/srv/nv'' sample_world))) = Inr True"
proof -
  have ok1: "fst (mknodevers_prefix ''/opt/nodevers'' sample_world) = Inr ()" by code_simp
  have ok2: "fst (mknodevers_prefix ''/srv/nv'' sample_world) = Inr ()" by code_simp
  have r1: "mknodevers_prefix ''/opt/nodevers'' sample_world =
      (Inr (), snd (mknodevers_prefix ''/opt/nodevers'' sample_world))"
    using ok1 by (simp add: prod_eq_iff)
  have r2: "mknodevers_prefix ''/srv/nv'' sample_world =
      (Inr (), snd (mknodevers_prefix ''/srv/nv'' sample_world))"
    using ok2 by (simp add: prod_eq_iff)
  have e1: "stat sample_world ''/opt/nodevers'' \<noteq> None" by code_simp
  have e2: "stat sample_world ''/srv/nv'' = None" by code_simp
  have p1: "names (cwd sample_world) ''/opt/nodevers'' = [''opt'', ''nodevers'']" by code_simp
  have p2: "names (cwd sample_world) ''/srv/nv'' = [''srv'', ''nv'']" by code_simp
  have t0: "trace sample_world = []" by (simp add: sample_world_def)
  have old: "node_at (files sample_world) [''opt'', ''nodevers'', ''versions'', ''5.10.2'']
      = Some Dir" by code_simp
  have d1: "''.'' \<notin> set (split_on CHR ''/'' ''/opt/nodevers'')"
    and d2: "''..'' \<notin> set (split_on CHR ''/'' ''/opt/nodevers'')"
    and d3: "''.'' \<notin> set (split_on CHR ''/'' ''/srv/nv'')"
    and d4: "''..'' \<notin> set (split_on CHR ''/'' ''/srv/nv'')"
    by code_simp+
  note a = initialize_makes_valid_layout [OF r1 d1 d2, unfolded p1 t0]
  note b = initialize_makes_valid_layout [OF r2 d3 d4, unfolded p2 t0]
  have a1: "trace (snd (mknodevers_prefix ''/opt/nodevers'' sample_world)) =
     [Path_exists ''/opt/nodevers'', Rmtree ''/opt/nodevers'',
      Makedirs ''/opt/nodevers/versions'', Makedirs ''/opt/nodevers/tmp'',
      Makedirs ''/opt/nodevers/patches'', Makedirs ''/opt/nodevers/patches/global'']"
    using a e1 by (simp add: os_path_join_def)
  have a2: "node_at (files (snd (mknodevers_prefix ''/opt/nodevers'' sample_world)))
     [''opt'', ''nodevers'', ''versions'', ''5.10.2''] = None"
    using a e1 by simp
  have a3: "node_at (files (snd (mknodevers_prefix ''/opt/nodevers'' sample_world)))
     [''opt'', ''nodevers'', ''patches'', ''global''] = Some Dir"
    using a by simp
  have b1: "trace (snd (mknodevers_prefix ''/srv/nv'' sample_world)) =
     [Path_exists ''/srv/nv'',
      Makedirs ''/srv/nv/versions'', Makedirs ''/srv/nv/tmp'',
      Makedirs ''/srv/nv/patches'', Makedirs ''/srv/nv/patches/global'']"
    using b e2 by (simp add: os_path_join_def)
  have b2: "node_at (files (snd (mknodevers_prefix ''/srv/nv'' sample_world))) [''srv'']
      = Some Dir"
    using b by simp
  have b3: "node_at (files (snd (mknodevers_prefix ''/srv/nv'' sample_world)))
     [''opt'', ''nodevers'', ''versions'', ''5.10.2''] = Some Dir"
    using b e2 old by simp
  show ?thesis using ok1 ok2 a a1 a2 a3 b b1 b2 b3 by blast
qed

text \<open>
  Claim C9: \<open>mknodevers_prefix\<close> is to remove the prefix if it exists, in whatever form,
  and then to make the four directories, so that \<open>valid_nodevers_prefix\<close> holds
  afterwards. On a prefix that exists as a regular file it does not: \<open>os.path.exists\<close>
  answers true, \<open>shutil.rmtree\<close> is called and raises \<open>OSError\<close> (not a directory), the
  file stays where it was, \<open>os.makedirs\<close> is never called, and the layout is not valid.
\<close>

theorem initialize_leaves_regular_file:
  "lstat occupied_world ''/opt/nodevers'' = Some File \<and>
   fst (os_path_exists ''/opt/nodevers'' occupied_world) = Inr True \<and>
   fst (mknodevers_prefix ''/opt/nodevers'' occupied_world) = Inl (OSError ENOTDIR) \<and>
   trace (snd (mknodevers_prefix ''/opt/nodevers'' occupied_world)) =
     [Path_exists ''/opt/nodevers'', Rmtree ''/opt/nodevers''] \<and>
   files (snd (mknodevers_prefix ''/opt/nodevers'' occupied_world)) = files occupied_world \<and>
   lstat (snd (mknodevers_prefix ''/opt/nodevers'' occupied_world)) ''/opt/nodevers''
     = Some File \<and>
   fst (valid_nodevers_prefix ''/opt/nodevers''
          (snd (mknodevers_prefix ''/opt/nodevers'' occupied_world))) = Inr False"
  by code_simp

text \<open>
  The same happens on a prefix that is a symbolic link to a directory, which
  \<open>shutil.rmtree\<close> refuses, and on a regular file anywhere else.
\<close>

lemma mknodevers_prefix_not_a_directory:
  "fst (mknodevers_prefix ''/opt/nodevers/patches/global/a'' sample_world)
     = Inl (OSError ENOTDIR)"
  "lstat (snd (mknodevers_prefix ''/opt/nodevers/patches/global/a'' sample_world))
     ''/opt/nodevers/patches/global/a'' = Some File"
  "fst (os_path_exists ''/opt/nodevers/bin'' sample_world) = Inr True"
  "fst (mknodevers_prefix ''/opt/nodevers/bin'' sample_world) = Inl RmtreeSymlink"
  "lstat (snd (mknodevers_prefix ''/opt/nodevers/bin'' sample_world)) ''/opt/nodevers/bin''
     = Some (Symlink ''/opt/nodevers/versions/5.10.2/bin'')"
  by code_simp+

end
